theory Spec2Isabelle
  imports Main "HOL-Library.Multiset" "HOL-Library.Sublist"
begin

section \<open>Data model\<close>

text \<open>
  The embedding follows
  \<^verbatim>\<open>packages/wallet/src/services/AddressDiscovery/HDSequentialDiscovery.ts\<close>.
  JavaScript numbers that count positions (derivation indices, the gap counter) are
  natural numbers; \<^verbatim>\<open>lookAheadCount\<close> is a caller-supplied number and is an
  \<^typ>\<open>int\<close>, so that a negative value is an input of the model as well.
\<close>

text \<open>\<^verbatim>\<open>AddressType\<close> of the key-management package: the role of a payment key.\<close>

datatype AddressType = External | Internal

datatype NetworkId = Mainnet | Testnet

text \<open>
  \<^verbatim>\<open>AccountAddressDerivationPath = { index, type }\<close>. The fields carry the prefix
  \<open>path_\<close> because \<^verbatim>\<open>GroupedAddress\<close> has fields of the same names.
\<close>

record AccountAddressDerivationPath =
  path_index :: nat
  path_type :: AddressType

text \<open>
  \<^verbatim>\<open>AccountKeyDerivationPath\<close>: the source reads only its \<^verbatim>\<open>index\<close>
  (\<^verbatim>\<open>stakeKeyDerivationPath!.index\<close>), here \<open>key_index\<close>.
\<close>

record AccountKeyDerivationPath =
  key_index :: nat

text \<open>
  \<^verbatim>\<open>GroupedAddress\<close>, with the fields listed in the source (lines 186-194). The
  optional \<^verbatim>\<open>stakeKeyDerivationPath?\<close> is an \<^typ>\<open>'a option\<close>.
\<close>

record GroupedAddress =
  type :: AddressType
  index :: nat
  networkId :: NetworkId
  accountIndex :: nat
  address :: string
  rewardAccount :: string
  stakeKeyDerivationPath :: "AccountKeyDerivationPath option"

text \<open>
  The two capabilities the discovery consumes are parameters of the model.
  \<^item> \<^verbatim>\<open>Bip32Account\<close> is its \<^verbatim>\<open>deriveAddress(paymentKeyDerivationPath,
    stakeKeyDerivationIndex)\<close>.
  \<^item> \<^verbatim>\<open>ChainHistoryProvider\<close> is its \<^verbatim>\<open>transactionsByAddresses\<close> at the fixed
    pagination \<^verbatim>\<open>{ limit: 1, startAt: 0 }\<close>, from the list of queried addresses to
    \<^verbatim>\<open>totalResultCount\<close>.
  Both are total functions here: a rejected promise of either capability aborts the
  run in the source and is outside the properties below.
\<close>

type_synonym Bip32Account = "AccountAddressDerivationPath \<Rightarrow> nat \<Rightarrow> GroupedAddress"

type_synonym ChainHistoryProvider = "string list \<Rightarrow> nat"

text \<open>The value returned by the \<^verbatim>\<open>getDeriveAddressArgs\<close> callback.\<close>

record DeriveAddressArgs =
  paymentKeyDerivationPath :: AccountAddressDerivationPath
  stakeKeyDerivationIndex :: nat

section \<open>The usage check and the chain scanner\<close>

text \<open>\<^verbatim>\<open>addressHasTx\<close> (lines 15-25): \<^verbatim>\<open>txs.totalResultCount > 0\<close>.\<close>

definition addressHasTx :: "GroupedAddress \<Rightarrow> ChainHistoryProvider \<Rightarrow> bool" where
  "addressHasTx a chainHistoryProvider = (chainHistoryProvider [address a] > 0)"

text \<open>
  The local variables of \<^verbatim>\<open>discoverAddresses\<close> (lines 48-50). The field
  \<open>queried\<close> is the trace of the loop's effect on the provider: the address of every
  \<^verbatim>\<open>addressHasTx\<close> call, in the order of the calls.
\<close>

record scan_state =
  currentGap :: nat
  currentIndex :: nat
  addresses :: "GroupedAddress list"
  queried :: "string list"

text \<open>The body of the \<^verbatim>\<open>while\<close> loop (lines 53-78).\<close>

definition scan_body ::
  "Bip32Account \<Rightarrow> ChainHistoryProvider \<Rightarrow> (nat \<Rightarrow> AddressType \<Rightarrow> DeriveAddressArgs)
     \<Rightarrow> scan_state \<Rightarrow> scan_state" where
  "scan_body account chainHistoryProvider getDeriveAddressArgs st =
     (let externalAddressArgs = getDeriveAddressArgs (currentIndex st) External;
          internalAddressArgs = getDeriveAddressArgs (currentIndex st) Internal;
          externalAddress = account (paymentKeyDerivationPath externalAddressArgs)
                                    (stakeKeyDerivationIndex externalAddressArgs);
          internalAddress = account (paymentKeyDerivationPath internalAddressArgs)
                                    (stakeKeyDerivationIndex internalAddressArgs);
          externalHasTx = addressHasTx externalAddress chainHistoryProvider;
          internalHasTx = addressHasTx internalAddress chainHistoryProvider
      in \<lparr> currentGap = (if externalHasTx \<or> internalHasTx then 0 else currentGap st + 1),
           currentIndex = currentIndex st + 1,
           addresses = addresses st
             @ (if externalHasTx then [externalAddress] else [])
             @ (if internalHasTx then [internalAddress] else []),
           queried = queried st @ [address externalAddress, address internalAddress] \<rparr>)"

text \<open>
  The loop \<^verbatim>\<open>while (currentGap <= lookAheadCount)\<close> (line 52). It does not stop on
  a provider that keeps reporting usage, so the result is an option: \<open>None\<close> is a
  run that never returns.
\<close>

partial_function (option) scan_loop ::
  "Bip32Account \<Rightarrow> ChainHistoryProvider \<Rightarrow> int \<Rightarrow> (nat \<Rightarrow> AddressType \<Rightarrow> DeriveAddressArgs)
     \<Rightarrow> scan_state \<Rightarrow> scan_state option" where
  "scan_loop account chainHistoryProvider lookAheadCount getDeriveAddressArgs st =
     (if int (currentGap st) \<le> lookAheadCount
      then scan_loop account chainHistoryProvider lookAheadCount getDeriveAddressArgs
             (scan_body account chainHistoryProvider getDeriveAddressArgs st)
      else Some st)"

declare scan_loop.simps [code]

definition scan_init :: scan_state where
  "scan_init = \<lparr> currentGap = 0, currentIndex = 0, addresses = [], queried = [] \<rparr>"

text \<open>\<^verbatim>\<open>discoverAddresses\<close> (lines 36-82) returns the list \<^verbatim>\<open>addresses\<close>.\<close>

definition discoverAddresses ::
  "Bip32Account \<Rightarrow> ChainHistoryProvider \<Rightarrow> int \<Rightarrow> (nat \<Rightarrow> AddressType \<Rightarrow> DeriveAddressArgs)
     \<Rightarrow> GroupedAddress list option" where
  "discoverAddresses account chainHistoryProvider lookAheadCount getDeriveAddressArgs =
     map_option addresses
       (scan_loop account chainHistoryProvider lookAheadCount getDeriveAddressArgs scan_init)"

section \<open>Addresses and credentials of the core package\<close>

text \<open>
  \<^verbatim>\<open>getPaymentCredential\<close> and \<^verbatim>\<open>makeProgrammableTokenAddress\<close> work on
  \<^verbatim>\<open>Cardano.Address\<close>, \<^verbatim>\<open>Cardano.Credential\<close> and \<^verbatim>\<open>Cardano.BaseAddress\<close> of
  the core package (\<^verbatim>\<open>@cardano-sdk/core\<close>), which the wallet package imports. The
  types below give them the shape the specification describes.
\<close>

datatype CredentialType = KeyHash | ScriptHash

text \<open>
  Modelled from the spec: \<^verbatim>\<open>Cardano.Credential\<close>, "\<^verbatim>\<open>{ hash: bytes, type: KeyHash |
  ScriptHash }\<close>". The hash is kept as its hexadecimal text; the field \<^verbatim>\<open>type\<close> is
  \<open>cred_type\<close> here.
\<close>

record Credential =
  hash :: string
  cred_type :: CredentialType

text \<open>
  The tags \<^verbatim>\<open>Cardano.AddressType\<close> that \<^verbatim>\<open>userAddress.getType()\<close> returns; the six
  named in the \<^verbatim>\<open>switch\<close> of \<^verbatim>\<open>getPaymentCredential\<close>, and the kinds its
  \<^verbatim>\<open>default\<close> branch is left with (pointer, reward and Byron addresses).
\<close>

datatype CardanoAddressType =
    BasePaymentKeyStakeKey
  | BasePaymentScriptStakeKey
  | BasePaymentKeyStakeScript
  | BasePaymentScriptStakeScript
  | PointerKey
  | PointerScript
  | EnterpriseKey
  | EnterpriseScript
  | Byron
  | RewardKey
  | RewardScript

text \<open>
  Modelled from the spec: \<^verbatim>\<open>Cardano.BaseAddress\<close>, "an address encoding both a payment
  and a delegation credential".
\<close>

record BaseAddress =
  base_networkId :: NetworkId
  base_paymentCredential :: Credential
  base_stakeCredential :: Credential

text \<open>
  Modelled from the spec: \<^verbatim>\<open>Cardano.EnterpriseAddress\<close>, "an address encoding only a
  payment credential, no delegation rights".
\<close>

record EnterpriseAddress =
  enterprise_networkId :: NetworkId
  enterprise_paymentCredential :: Credential

text \<open>
  Modelled from the spec: \<^verbatim>\<open>Cardano.Address\<close> as "a closed tagged-variant (sum type)
  over address kinds": base, enterprise, and the kinds without a payment credential the
  extractor accepts (pointer, reward-only, Byron/bootstrap).
\<close>

datatype Address =
    Base BaseAddress
  | Enterprise EnterpriseAddress
  | Pointer NetworkId Credential
  | Reward NetworkId Credential
  | Bootstrap string

text \<open>
  Modelled from the spec: \<^verbatim>\<open>Address.getType\<close>, the address kind, with "key- or
  script-locked" enterprise addresses and "the four payment/stake credential-type
  combinations" of base addresses.
\<close>

fun getType :: "Address \<Rightarrow> CardanoAddressType" where
  "getType (Base b) =
     (case (cred_type (base_paymentCredential b), cred_type (base_stakeCredential b)) of
        (KeyHash, KeyHash) \<Rightarrow> BasePaymentKeyStakeKey
      | (ScriptHash, KeyHash) \<Rightarrow> BasePaymentScriptStakeKey
      | (KeyHash, ScriptHash) \<Rightarrow> BasePaymentKeyStakeScript
      | (ScriptHash, ScriptHash) \<Rightarrow> BasePaymentScriptStakeScript)"
| "getType (Enterprise e) =
     (case cred_type (enterprise_paymentCredential e) of
        KeyHash \<Rightarrow> EnterpriseKey | ScriptHash \<Rightarrow> EnterpriseScript)"
| "getType (Pointer n c) =
     (case cred_type c of KeyHash \<Rightarrow> PointerKey | ScriptHash \<Rightarrow> PointerScript)"
| "getType (Reward n c) =
     (case cred_type c of KeyHash \<Rightarrow> RewardKey | ScriptHash \<Rightarrow> RewardScript)"
| "getType (Bootstrap content) = Byron"

text \<open>
  Modelled from the spec: \<^verbatim>\<open>Address.asEnterprise\<close> and \<^verbatim>\<open>Address.asBase\<close>, the
  view of an address as one kind, \<^verbatim>\<open>undefined\<close> (here \<open>None\<close>) for every other kind.
\<close>

fun asEnterprise :: "Address \<Rightarrow> EnterpriseAddress option" where
  "asEnterprise (Enterprise e) = Some e"
| "asEnterprise _ = None"

fun asBase :: "Address \<Rightarrow> BaseAddress option" where
  "asBase (Base b) = Some b"
| "asBase _ = None"

text \<open>
  Modelled from the spec: \<^verbatim>\<open>BaseAddress.fromCredentials(networkId, payment, stake)\<close>
  and \<^verbatim>\<open>BaseAddress.toAddress\<close>.
\<close>

definition fromCredentials :: "NetworkId \<Rightarrow> Credential \<Rightarrow> Credential \<Rightarrow> BaseAddress" where
  "fromCredentials network payment stake =
     \<lparr> base_networkId = network, base_paymentCredential = payment,
       base_stakeCredential = stake \<rparr>"

definition toAddress :: "BaseAddress \<Rightarrow> Address" where
  "toAddress b = Base b"

datatype PlutusLanguageVersion = V1 | V2 | V3

record PlutusScript =
  bytes :: string
  version :: PlutusLanguageVersion

text \<open>
  The text encoding of addresses and the hash of a script are functions of the core
  package that this development does not embed; they are parameters of the model:
  \<^verbatim>\<open>Cardano.Address.fromString\<close> (\<^verbatim>\<open>null\<close> is \<open>None\<close>), \<^verbatim>\<open>Address.toBech32\<close>
  and \<^verbatim>\<open>Serialization.Script.fromCore(script).hash()\<close>.
\<close>

record CardanoCore =
  fromString :: "string \<Rightarrow> Address option"
  toBech32 :: "Address \<Rightarrow> string"
  scriptHash :: "PlutusScript \<Rightarrow> string"

section \<open>Errors\<close>

text \<open>
  \<open>UnsupportedAddressType\<close> is \<^verbatim>\<open>throw new Error('Unsupported address type')\<close>.
  \<open>TypeError\<close> is what JavaScript raises when a property of \<^verbatim>\<open>null\<close> or
  \<^verbatim>\<open>undefined\<close> is read: behind the non-null assertions \<^verbatim>\<open>fromString(...)!\<close>,
  \<^verbatim>\<open>asEnterprise()!\<close>, \<^verbatim>\<open>asBase()!\<close> and \<^verbatim>\<open>stakeKeyDerivationPath!\<close>.
\<close>

datatype error = UnsupportedAddressType | TypeError

section \<open>The credential extractor and the programmable-token address\<close>

text \<open>\<^verbatim>\<open>getPaymentCredential\<close> (lines 171-184).\<close>

definition getPaymentCredential :: "Address \<Rightarrow> error + Credential" where
  "getPaymentCredential userAddress =
     (let viaEnterprise =
            (case asEnterprise userAddress of
               None \<Rightarrow> Inl TypeError
             | Some e \<Rightarrow> Inr (enterprise_paymentCredential e));
          viaBase =
            (case asBase userAddress of
               None \<Rightarrow> Inl TypeError
             | Some b \<Rightarrow> Inr (base_paymentCredential b))
      in case getType userAddress of
           EnterpriseKey \<Rightarrow> viaEnterprise
         | EnterpriseScript \<Rightarrow> viaEnterprise
         | BasePaymentKeyStakeKey \<Rightarrow> viaBase
         | BasePaymentKeyStakeScript \<Rightarrow> viaBase
         | BasePaymentScriptStakeScript \<Rightarrow> viaBase
         | BasePaymentScriptStakeKey \<Rightarrow> viaBase
         | _ \<Rightarrow> Inl UnsupportedAddressType)"

text \<open>The constant \<^verbatim>\<open>programmableLogicBase\<close> (lines 211-217).\<close>

definition programmableLogicBase :: PlutusScript where
  "programmableLogicBase =
     \<lparr> bytes = ''58845882010000223253335734a666ae68cdd79aab9d3574200200629444cc8c8c8c0088cc0080080048c0088cc008008004894ccd55cf8008b0a999ab9a30033574200229444c008d5d1000919baf35573a0020086ae88004526163756646ae84c8d5d11aba2357446ae88d5d11aba20013235573c6ea8004004d5d0991aab9e37540020021'',
       version = V3 \<rparr>"

text \<open>\<^verbatim>\<open>makeProgrammableTokenAddress\<close> (lines 205-231).\<close>

definition makeProgrammableTokenAddress ::
  "CardanoCore \<Rightarrow> string \<Rightarrow> NetworkId \<Rightarrow> error + string" where
  "makeProgrammableTokenAddress core userAddress network =
     (case fromString core userAddress of
        None \<Rightarrow> Inl TypeError
      | Some parsed \<Rightarrow>
          (case getPaymentCredential parsed of
             Inl e \<Rightarrow> Inl e
           | Inr paymentCredential \<Rightarrow>
               Inr (toBech32 core (toAddress (fromCredentials network
                      \<lparr> hash = scriptHash core programmableLogicBase, cred_type = ScriptHash \<rparr>
                      paymentCredential)))))"

section \<open>The discovery orchestrator\<close>

definition STAKE_KEY_INDEX_LOOKAHEAD :: int where
  "STAKE_KEY_INDEX_LOOKAHEAD = 5"

text \<open>
  \<^verbatim>\<open>uniqBy\<close> of lodash: the elements are visited from the left, and an element is
  kept when the value of the iteratee on it has not been seen before.
\<close>

fun uniqBy_seen :: "('a \<Rightarrow> 'b) \<Rightarrow> 'b list \<Rightarrow> 'a list \<Rightarrow> 'a list" where
  "uniqBy_seen iteratee seen [] = []"
| "uniqBy_seen iteratee seen (x # xs) =
     (if iteratee x \<in> set seen then uniqBy_seen iteratee seen xs
      else x # uniqBy_seen iteratee (iteratee x # seen) xs)"

definition uniqBy :: "'a list \<Rightarrow> ('a \<Rightarrow> 'b) \<Rightarrow> 'a list" where
  "uniqBy xs iteratee = uniqBy_seen iteratee [] xs"

text \<open>\<^verbatim>\<open>firstAddresses\<close> (lines 117-121).\<close>

definition firstAddresses :: "ChainHistoryProvider \<Rightarrow> Bip32Account \<Rightarrow> GroupedAddress list" where
  "firstAddresses chainHistoryProvider manager =
     (let firstInternalAddress = manager \<lparr> path_index = 0, path_type = Internal \<rparr> 0
      in [manager \<lparr> path_index = 0, path_type = External \<rparr> 0]
         @ (if addressHasTx firstInternalAddress chainHistoryProvider
            then [firstInternalAddress] else []))"

text \<open>
  The callbacks of the two passes (lines 127-134 and 141-148); \<open>current\<close> is their
  parameter \<^verbatim>\<open>currentIndex\<close>.
\<close>

definition stakeKeyArgs :: "nat \<Rightarrow> AddressType \<Rightarrow> DeriveAddressArgs" where
  "stakeKeyArgs current t =
     \<lparr> paymentKeyDerivationPath = \<lparr> path_index = 0, path_type = t \<rparr>,
       stakeKeyDerivationIndex = current + 1 \<rparr>"

definition paymentKeyArgs :: "nat \<Rightarrow> AddressType \<Rightarrow> DeriveAddressArgs" where
  "paymentKeyArgs current t =
     \<lparr> paymentKeyDerivationPath = \<lparr> path_index = current + 1, path_type = t \<rparr>,
       stakeKeyDerivationIndex = 0 \<rparr>"

text \<open>
  The constant \<^verbatim>\<open>addresses\<close> of \<^verbatim>\<open>discover\<close> (lines 117-151): the first addresses,
  the stake-key pass and the payment-key pass, without duplicates of the field
  \<^verbatim>\<open>address\<close>. It is \<open>None\<close> when one of the passes does not return.
\<close>

definition discoveredAddresses ::
  "ChainHistoryProvider \<Rightarrow> int \<Rightarrow> Bip32Account \<Rightarrow> GroupedAddress list option" where
  "discoveredAddresses chainHistoryProvider lookAheadCount manager =
     (case discoverAddresses manager chainHistoryProvider STAKE_KEY_INDEX_LOOKAHEAD stakeKeyArgs of
        None \<Rightarrow> None
      | Some stakeKeyAddresses \<Rightarrow>
          (case discoverAddresses manager chainHistoryProvider lookAheadCount paymentKeyArgs of
             None \<Rightarrow> None
           | Some paymentKeyAddresses \<Rightarrow>
               Some (uniqBy (firstAddresses chainHistoryProvider manager
                             @ stakeKeyAddresses @ paymentKeyAddresses) address)))"

text \<open>
  \<^verbatim>\<open>addresses.map((address, idx) => ...)\<close> (lines 154-161), from position \<open>idx\<close> on.
  The first address the transform rejects ends the run.
\<close>

fun progTokenAddresses_from ::
  "CardanoCore \<Rightarrow> nat \<Rightarrow> nat \<Rightarrow> GroupedAddress list \<Rightarrow> error + GroupedAddress list" where
  "progTokenAddresses_from core lastIdx idx [] = Inr []"
| "progTokenAddresses_from core lastIdx idx (a # rest) =
     (case makeProgrammableTokenAddress core (address a) (networkId a) of
        Inl e \<Rightarrow> Inl e
      | Inr programmable \<Rightarrow>
          (case progTokenAddresses_from core lastIdx (idx + 1) rest of
             Inl e \<Rightarrow> Inl e
           | Inr groupedAddresses \<Rightarrow>
               Inr (a\<lparr> index := lastIdx + idx + 1, address := programmable \<rparr>
                    # groupedAddresses)))"

text \<open>
  \<^verbatim>\<open>lastIdx\<close> and \<^verbatim>\<open>progTokenAddresses\<close> (lines 153-161). Reading
  \<^verbatim>\<open>addresses[addresses.length - 1].index\<close> of an empty array is a \<open>TypeError\<close>.
\<close>

definition progTokenAddresses :: "CardanoCore \<Rightarrow> GroupedAddress list \<Rightarrow> error + GroupedAddress list" where
  "progTokenAddresses core addrs =
     (case addrs of
        [] \<Rightarrow> Inl TypeError
      | _ # _ \<Rightarrow> progTokenAddresses_from core (index (last addrs)) 0 addrs)"

text \<open>
  The comparator of the final sort (line 166):
  \<^verbatim>\<open>a.index - b.index || a.stakeKeyDerivationPath!.index - b.stakeKeyDerivationPath!.index\<close>.
  The right operand of \<^verbatim>\<open>||\<close> is evaluated only when the difference of the indices
  is zero, and raises when one of the two paths is \<^verbatim>\<open>undefined\<close>.
\<close>

definition compareAddresses :: "GroupedAddress \<Rightarrow> GroupedAddress \<Rightarrow> error + int" where
  "compareAddresses a b =
     (if int (index a) - int (index b) \<noteq> 0 then Inr (int (index a) - int (index b))
      else (case stakeKeyDerivationPath a of
              None \<Rightarrow> Inl TypeError
            | Some pa \<Rightarrow>
                (case stakeKeyDerivationPath b of
                   None \<Rightarrow> Inl TypeError
                 | Some pb \<Rightarrow> Inr (int (key_index pa) - int (key_index pb)))))"

text \<open>
  \<^verbatim>\<open>Array.prototype.sort\<close> with that comparator. The language fixes the result, a
  stable sort, and not the algorithm; the model is the stable insertion sort. A sort
  has to compare two entries of equal \<^verbatim>\<open>index\<close> to order them, so whether the
  comparator raises does not depend on the algorithm either.
\<close>

fun insertSorted :: "GroupedAddress \<Rightarrow> GroupedAddress list \<Rightarrow> error + GroupedAddress list" where
  "insertSorted x [] = Inr [x]"
| "insertSorted x (y # ys) =
     (case compareAddresses x y of
        Inl e \<Rightarrow> Inl e
      | Inr c \<Rightarrow>
          if c \<le> 0 then Inr (x # y # ys)
          else (case insertSorted x ys of Inl e \<Rightarrow> Inl e | Inr r \<Rightarrow> Inr (y # r)))"

fun sortAddresses :: "GroupedAddress list \<Rightarrow> error + GroupedAddress list" where
  "sortAddresses [] = Inr []"
| "sortAddresses (x # xs) =
     (case sortAddresses xs of Inl e \<Rightarrow> Inl e | Inr r \<Rightarrow> insertSorted x r)"

text \<open>
  \<^verbatim>\<open>HDSequentialDiscovery.discover\<close> (lines 116-168), with the fields
  \<^verbatim>\<open>#chainHistoryProvider\<close> and \<^verbatim>\<open>#lookAheadCount\<close> of the object as arguments.
  The result is \<open>None\<close> when a pass does not return, \<open>Some (Inl e)\<close> when the run raises
  and \<open>Some (Inr list)\<close> when it returns the list.
\<close>

definition discover ::
  "CardanoCore \<Rightarrow> ChainHistoryProvider \<Rightarrow> int \<Rightarrow> Bip32Account
     \<Rightarrow> (error + GroupedAddress list) option" where
  "discover core chainHistoryProvider lookAheadCount manager =
     (case discoveredAddresses chainHistoryProvider lookAheadCount manager of
        None \<Rightarrow> None
      | Some addrs \<Rightarrow>
          Some (case progTokenAddresses core addrs of
                  Inl e \<Rightarrow> Inl e
                | Inr progs \<Rightarrow> sortAddresses (addrs @ progs)))"

section \<open>Vocabulary of the properties\<close>

text \<open>The address a pass derives for kind \<open>t\<close> at scan index \<open>i\<close>.\<close>

definition derived_at ::
  "Bip32Account \<Rightarrow> (nat \<Rightarrow> AddressType \<Rightarrow> DeriveAddressArgs) \<Rightarrow> AddressType \<Rightarrow> nat
     \<Rightarrow> GroupedAddress" where
  "derived_at account getDeriveAddressArgs t i =
     account (paymentKeyDerivationPath (getDeriveAddressArgs i t))
             (stakeKeyDerivationIndex (getDeriveAddressArgs i t))"

text \<open>Scan index \<open>i\<close> is used when the External or the Internal address there has history.\<close>

definition position_used ::
  "Bip32Account \<Rightarrow> ChainHistoryProvider \<Rightarrow> (nat \<Rightarrow> AddressType \<Rightarrow> DeriveAddressArgs)
     \<Rightarrow> nat \<Rightarrow> bool" where
  "position_used account provider getArgs i =
     (addressHasTx (derived_at account getArgs External i) provider
      \<or> addressHasTx (derived_at account getArgs Internal i) provider)"

text \<open>The addresses with history at scan index \<open>i\<close>, External before Internal.\<close>

definition used_at ::
  "Bip32Account \<Rightarrow> ChainHistoryProvider \<Rightarrow> (nat \<Rightarrow> AddressType \<Rightarrow> DeriveAddressArgs)
     \<Rightarrow> nat \<Rightarrow> GroupedAddress list" where
  "used_at account provider getArgs i =
     filter (\<lambda>a. addressHasTx a provider)
       [derived_at account getArgs External i, derived_at account getArgs Internal i]"

text \<open>The two queries sent to the provider at scan index \<open>i\<close>.\<close>

definition queried_at ::
  "Bip32Account \<Rightarrow> (nat \<Rightarrow> AddressType \<Rightarrow> DeriveAddressArgs) \<Rightarrow> nat \<Rightarrow> string list" where
  "queried_at account getArgs i =
     [address (derived_at account getArgs External i),
      address (derived_at account getArgs Internal i)]"

text \<open>The number of unused scan indices directly before index \<open>n\<close>.\<close>

primrec trailing_gap ::
  "Bip32Account \<Rightarrow> ChainHistoryProvider \<Rightarrow> (nat \<Rightarrow> AddressType \<Rightarrow> DeriveAddressArgs)
     \<Rightarrow> nat \<Rightarrow> nat" where
  "trailing_gap account provider getArgs 0 = 0"
| "trailing_gap account provider getArgs (Suc n) =
     (if position_used account provider getArgs n then 0
      else Suc (trailing_gap account provider getArgs n))"

text \<open>
  What the discovery relies on in an account: a derived address records the payment
  index it was derived at as its \<^verbatim>\<open>index\<close> and the stake index as its
  \<^verbatim>\<open>stakeKeyDerivationPath\<close>.
\<close>

definition records_path :: "Bip32Account \<Rightarrow> bool" where
  "records_path account =
     (\<forall>p s. index (account p s) = path_index p
            \<and> stakeKeyDerivationPath (account p s) = Some \<lparr> key_index = s \<rparr>)"

text \<open>An address text that decodes to a base or an enterprise address.\<close>

definition payment_address :: "CardanoCore \<Rightarrow> string \<Rightarrow> bool" where
  "payment_address core a =
     (case fromString core a of
        Some (Base b) \<Rightarrow> True
      | Some (Enterprise e) \<Rightarrow> True
      | _ \<Rightarrow> False)"

text \<open>
  Ascending order of the pair \<^verbatim>\<open>(index, stakeKeyDerivationPath.index)\<close>; entries of
  equal \<^verbatim>\<open>index\<close> are comparable only when both have a stake-key path.
\<close>

definition ordered_pair :: "GroupedAddress \<Rightarrow> GroupedAddress \<Rightarrow> bool" where
  "ordered_pair a b =
     (index a < index b
      \<or> (index a = index b
         \<and> (case (stakeKeyDerivationPath a, stakeKeyDerivationPath b) of
              (Some pa, Some pb) \<Rightarrow> key_index pa \<le> key_index pb
            | _ \<Rightarrow> False)))"

section \<open>A sample account, encoding and provider\<close>

text \<open>
  Concrete values on which the properties are evaluated. The account derives base
  addresses on the test network, as a BIP32 account does: the payment key hash depends
  on the payment path only, the stake key hash on the stake index only. Hashes are
  short texts instead of 28 bytes, and the encoding writes an address out as text.
\<close>

definition sample_credential :: "Credential \<Rightarrow> string" where
  "sample_credential c =
     (case cred_type c of KeyHash \<Rightarrow> ''k'' | ScriptHash \<Rightarrow> ''s'') @ hash c"

definition sample_network :: "NetworkId \<Rightarrow> string" where
  "sample_network n = (case n of Mainnet \<Rightarrow> ''1'' | Testnet \<Rightarrow> ''0'')"

fun sample_toBech32 :: "Address \<Rightarrow> string" where
  "sample_toBech32 (Base b) =
     ''b'' @ sample_network (base_networkId b) @ sample_credential (base_paymentCredential b)
       @ '':'' @ sample_credential (base_stakeCredential b)"
| "sample_toBech32 (Enterprise e) =
     ''e'' @ sample_network (enterprise_networkId e)
       @ sample_credential (enterprise_paymentCredential e)"
| "sample_toBech32 (Pointer n c) = ''p'' @ sample_network n @ sample_credential c"
| "sample_toBech32 (Reward n c) = ''r'' @ sample_network n @ sample_credential c"
| "sample_toBech32 (Bootstrap content) = ''y'' @ content"

definition sample_parse_network :: "char \<Rightarrow> NetworkId option" where
  "sample_parse_network c =
     (if c = CHR ''1'' then Some Mainnet else if c = CHR ''0'' then Some Testnet else None)"

definition sample_parse_credential :: "string \<Rightarrow> Credential option" where
  "sample_parse_credential s =
     (case s of
        [] \<Rightarrow> None
      | c # h \<Rightarrow>
          if c = CHR ''k'' then Some \<lparr> hash = h, cred_type = KeyHash \<rparr>
          else if c = CHR ''s'' then Some \<lparr> hash = h, cred_type = ScriptHash \<rparr>
          else None)"

definition sample_fromString :: "string \<Rightarrow> Address option" where
  "sample_fromString s =
     (case s of
        [] \<Rightarrow> None
      | k # rest \<Rightarrow>
          if k = CHR ''y'' then Some (Bootstrap rest)
          else (case rest of
                  [] \<Rightarrow> None
                | n # body \<Rightarrow>
                    (case sample_parse_network n of
                       None \<Rightarrow> None
                     | Some network \<Rightarrow>
                         if k = CHR ''b'' then
                           (case (sample_parse_credential (takeWhile (\<lambda>c. c \<noteq> CHR '':'') body),
                                  sample_parse_credential
                                    (drop 1 (dropWhile (\<lambda>c. c \<noteq> CHR '':'') body))) of
                              (Some p, Some d) \<Rightarrow> Some (Base (fromCredentials network p d))
                            | _ \<Rightarrow> None)
                         else (case sample_parse_credential body of
                                 None \<Rightarrow> None
                               | Some c \<Rightarrow>
                                   if k = CHR ''e'' then
                                     Some (Enterprise \<lparr> enterprise_networkId = network,
                                                        enterprise_paymentCredential = c \<rparr>)
                                   else if k = CHR ''p'' then Some (Pointer network c)
                                   else if k = CHR ''r'' then Some (Reward network c)
                                   else None))))"

definition sample_core :: CardanoCore where
  "sample_core =
     \<lparr> fromString = sample_fromString, toBech32 = sample_toBech32,
       scriptHash = (\<lambda>script. ''logic'') \<rparr>"

definition sample_payment_key :: "AccountAddressDerivationPath \<Rightarrow> Credential" where
  "sample_payment_key p =
     \<lparr> hash = (case path_type p of External \<Rightarrow> ''x'' | Internal \<Rightarrow> ''n'')
               @ replicate (path_index p) (CHR ''i''),
       cred_type = KeyHash \<rparr>"

definition sample_stake_key :: "nat \<Rightarrow> Credential" where
  "sample_stake_key s = \<lparr> hash = ''t'' @ replicate s (CHR ''i''), cred_type = KeyHash \<rparr>"

definition sample_account :: Bip32Account where
  "sample_account p s =
     \<lparr> type = path_type p, index = path_index p, networkId = Testnet, accountIndex = 0,
       address = sample_toBech32
                   (Base (fromCredentials Testnet (sample_payment_key p) (sample_stake_key s))),
       rewardAccount = sample_toBech32 (Reward Testnet (sample_stake_key s)),
       stakeKeyDerivationPath = Some \<lparr> key_index = s \<rparr> \<rparr>"

text \<open>A provider that has one transaction for each address of the list \<open>used\<close>.\<close>

definition sample_provider :: "string list \<Rightarrow> ChainHistoryProvider" where
  "sample_provider used queriedAddresses =
     length (filter (\<lambda>a. a \<in> set used) queriedAddresses)"

text \<open>
  An account that does not record the payment index: the \<^verbatim>\<open>index\<close> of a derived
  address is \<open>5 - payment index\<close>. On it the list handed to the final sort is not in
  order.
\<close>

definition sample_reversed_account :: Bip32Account where
  "sample_reversed_account p s = (sample_account p s)\<lparr> index := 5 - path_index p \<rparr>"

text \<open>
  The addresses with history of the boundary example: External payment indices 0, 1, 2, 5
  and 10 at stake index 0.
\<close>

definition sample_used_payments :: "string list" where
  "sample_used_payments =
     map (\<lambda>i. address (sample_account \<lparr> path_index = i, path_type = External \<rparr> 0))
       [0, 1, 2, 5, 10]"

section \<open>The loop of the chain scanner\<close>

text \<open>
  The loop returns as soon as its condition fails, runs through every state on which
  the condition holds, and a returned state is an iterate of the body.
\<close>

lemma scan_loop_stop:
  "\<not> int (currentGap st) \<le> L \<Longrightarrow> scan_loop a p L g st = Some st"
  by (subst scan_loop.simps) simp

lemma scan_loop_run:
  "(\<And>m. m < n \<Longrightarrow> int (currentGap ((scan_body a p g ^^ m) st)) \<le> L)
   \<Longrightarrow> scan_loop a p L g st = scan_loop a p L g ((scan_body a p g ^^ n) st)"
proof (induction n)
  case 0
  show ?case by simp
next
  case (Suc n)
  have "scan_loop a p L g st = scan_loop a p L g ((scan_body a p g ^^ n) st)"
    using Suc by simp
  also have "\<dots> = scan_loop a p L g (scan_body a p g ((scan_body a p g ^^ n) st))"
    using Suc.prems[of n] by (subst scan_loop.simps) simp
  finally show ?case by simp
qed

lemma scan_loop_Some_iter:
  "scan_loop a p L g st = Some st'
   \<Longrightarrow> \<exists>n. st' = (scan_body a p g ^^ n) st \<and> \<not> int (currentGap st') \<le> L
          \<and> (\<forall>m<n. int (currentGap ((scan_body a p g ^^ m) st)) \<le> L)"
proof (induct rule: scan_loop.raw_induct[rotated 1, consumes 1, case_names step])
  case (step loop a p L g st st')
  show ?case
  proof (cases "int (currentGap st) \<le> L")
    case False
    with step(2) have "st' = st" by simp
    with False show ?thesis by (intro exI[of _ 0]) simp
  next
    case True
    with step(2) have "loop a p L g (scan_body a p g st) = Some st'" by simp
    from step(1)[OF this] obtain n where n:
      "st' = (scan_body a p g ^^ n) (scan_body a p g st)" "\<not> int (currentGap st') \<le> L"
      "\<forall>m<n. int (currentGap ((scan_body a p g ^^ m) (scan_body a p g st))) \<le> L"
      by blast
    have "\<forall>m<Suc n. int (currentGap ((scan_body a p g ^^ m) st)) \<le> L"
    proof (intro allI impI)
      fix m assume "m < Suc n"
      show "int (currentGap ((scan_body a p g ^^ m) st)) \<le> L"
      proof (cases m)
        case 0 with True show ?thesis by simp
      next
        case (Suc k)
        with \<open>m < Suc n\<close> n(3) show ?thesis by (simp add: funpow_swap1)
      qed
    qed
    with n(1,2) show ?thesis by (intro exI[of _ "Suc n"]) (simp add: funpow_swap1)
  qed
qed

lemma scan_iter_closed:
  "(scan_body a p g ^^ n) scan_init =
     \<lparr> currentGap = trailing_gap a p g n, currentIndex = n,
       addresses = concat (map (used_at a p g) [0..<n]),
       queried = concat (map (queried_at a g) [0..<n]) \<rparr>"
  by (induction n)
     (simp_all add: scan_init_def scan_body_def Let_def used_at_def queried_at_def
        position_used_def derived_at_def)

section \<open>The gap counter\<close>

lemma trailing_gap_le: "trailing_gap a p g n \<le> n"
  by (induction n) auto

lemma trailing_gap_unused:
  "j < trailing_gap a p g n \<Longrightarrow> \<not> position_used a p g (n - Suc j)"
proof (induction n arbitrary: j)
  case 0
  then show ?case by simp
next
  case (Suc n)
  show ?case
  proof (cases j)
    case 0
    with Suc.prems show ?thesis by (simp split: if_splits)
  next
    case (Suc k)
    with Suc.prems have "k < trailing_gap a p g n" by (simp split: if_splits)
    from Suc.IH[OF this] Suc show ?thesis by simp
  qed
qed

lemma trailing_gap_run:
  "(\<And>i. n \<le> i \<Longrightarrow> i < n + k \<Longrightarrow> \<not> position_used a p g i)
   \<Longrightarrow> trailing_gap a p g (n + k) = trailing_gap a p g n + k"
  by (induction k) auto

lemma trailing_gap_window:
  assumes "nat L < trailing_gap a p g k"
  shows "\<forall>j\<le>nat L. \<not> position_used a p g (k - trailing_gap a p g k + j)"
proof (intro allI impI)
  fix j assume j: "j \<le> nat L"
  let ?t = "trailing_gap a p g k"
  have le: "?t \<le> k" by (rule trailing_gap_le)
  from j assms have "?t - Suc j < ?t" by simp
  from trailing_gap_unused[OF this] have "\<not> position_used a p g (k - Suc (?t - Suc j))" .
  moreover from j assms le have "k - Suc (?t - Suc j) = k - ?t + j" by simp
  ultimately show "\<not> position_used a p g (k - ?t + j)" by simp
qed

lemma concat_used_at_unused:
  "(\<And>i. n \<le> i \<Longrightarrow> i < n + k \<Longrightarrow> \<not> position_used a p g i)
   \<Longrightarrow> concat (map (used_at a p g) [0..<n + k]) = concat (map (used_at a p g) [0..<n])"
proof (induction k)
  case 0
  show ?case by simp
next
  case (Suc k)
  have "\<not> position_used a p g (n + k)" using Suc.prems[of "n + k"] by simp
  then have "used_at a p g (n + k) = []" by (simp add: used_at_def position_used_def)
  with Suc show ?case by simp
qed

lemma scan_loop_window:
  assumes L: "0 \<le> L"
    and win: "\<forall>j\<le>nat L. \<not> position_used a p g (n + j)"
    and first: "\<forall>m<n. \<exists>j\<le>nat L. position_used a p g (m + j)"
  shows "scan_loop a p L g scan_init =
           Some \<lparr> currentGap = nat L + 1, currentIndex = n + nat L + 1,
                  addresses = concat (map (used_at a p g) [0..<n]),
                  queried = concat (map (queried_at a g) [0..<n + nat L + 1]) \<rparr>"
    and "n = 0 \<or> position_used a p g (n - 1)"
    and "\<forall>m<n + nat L + 1. int (currentGap ((scan_body a p g ^^ m) scan_init)) \<le> L"
proof -
  let ?U = "position_used a p g" and ?t = "trailing_gap a p g"
  show hit: "n = 0 \<or> ?U (n - 1)"
  proof (rule ccontr)
    assume "\<not> (n = 0 \<or> ?U (n - 1))"
    then have n: "0 < n" and nu: "\<not> ?U (n - 1)" by auto
    from first n obtain j where j: "j \<le> nat L" "?U (n - 1 + j)"
      by (metis diff_less zero_less_one)
    show False
    proof (cases j)
      case 0 with j nu show False by simp
    next
      case (Suc i)
      with j n have "i \<le> nat L" "?U (n + i)" by simp_all
      with win show False by blast
    qed
  qed
  have t_n: "?t n = 0"
  proof (cases n)
    case 0 then show ?thesis by simp
  next
    case (Suc m) with hit show ?thesis by simp
  qed
  have t_after: "?t (n + k) = k" if "k \<le> nat L + 1" for k
  proof -
    have "?t (n + k) = ?t n + k"
    proof (rule trailing_gap_run)
      fix i assume "n \<le> i" "i < n + k"
      with that have "i - n \<le> nat L" "i = n + (i - n)" by simp_all
      with win show "\<not> ?U i" by metis
    qed
    with t_n show ?thesis by simp
  qed
  have t_before: "?t m \<le> nat L" if "m < n" for m
  proof (rule ccontr)
    assume "\<not> ?t m \<le> nat L"
    then have big: "nat L < ?t m" by simp
    from trailing_gap_window[OF big]
    have w: "\<forall>j\<le>nat L. \<not> ?U (m - ?t m + j)" .
    have "m - ?t m < n" using that by simp
    with first obtain j where "j \<le> nat L" "?U (m - ?t m + j)" by blast
    with w show False by blast
  qed
  have cond: "int (currentGap ((scan_body a p g ^^ m) scan_init)) \<le> L" if "m < n + nat L + 1" for m
  proof (cases "m < n")
    case True
    from t_before[OF this] L show ?thesis by (simp add: scan_iter_closed)
  next
    case False
    with that have "m - n \<le> nat L" "m = n + (m - n)" by simp_all
    with t_after[of "m - n"] L show ?thesis by (simp add: scan_iter_closed)
  qed
  from cond show "\<forall>m<n + nat L + 1. int (currentGap ((scan_body a p g ^^ m) scan_init)) \<le> L"
    by blast
  have unused: "\<not> ?U i" if "n \<le> i" "i < n + (nat L + 1)" for i
  proof -
    from that have "i - n \<le> nat L" "i = n + (i - n)" by simp_all
    with win show ?thesis by metis
  qed
  have fin: "(scan_body a p g ^^ (n + nat L + 1)) scan_init =
      \<lparr> currentGap = nat L + 1, currentIndex = n + nat L + 1,
        addresses = concat (map (used_at a p g) [0..<n]),
        queried = concat (map (queried_at a g) [0..<n + nat L + 1]) \<rparr>"
    unfolding scan_iter_closed
    using t_after[of "nat L + 1"] concat_used_at_unused[of n "nat L + 1" a p g, OF unused]
    by (simp add: add.assoc)
  have "scan_loop a p L g scan_init =
          scan_loop a p L g ((scan_body a p g ^^ (n + nat L + 1)) scan_init)"
    by (rule scan_loop_run) (rule cond)
  also have "\<dots> = Some ((scan_body a p g ^^ (n + nat L + 1)) scan_init)"
    unfolding fin using L by (intro scan_loop_stop) simp
  finally show "scan_loop a p L g scan_init =
           Some \<lparr> currentGap = nat L + 1, currentIndex = n + nat L + 1,
                  addresses = concat (map (used_at a p g) [0..<n]),
                  queried = concat (map (queried_at a g) [0..<n + nat L + 1]) \<rparr>"
    unfolding fin .
qed

lemma scan_loop_Some_closed:
  assumes "scan_loop a p L g scan_init = Some st"
  shows "\<exists>k. st = \<lparr> currentGap = trailing_gap a p g k, currentIndex = k,
                    addresses = concat (map (used_at a p g) [0..<k]),
                    queried = concat (map (queried_at a g) [0..<k]) \<rparr>
             \<and> \<not> int (trailing_gap a p g k) \<le> L"
proof -
  from scan_loop_Some_iter[OF assms] obtain k where
    "st = (scan_body a p g ^^ k) scan_init" "\<not> int (currentGap st) \<le> L" by blast
  then show ?thesis by (intro exI[of _ k]) (simp add: scan_iter_closed)
qed

lemma scan_loop_None:
  assumes L: "0 \<le> L" and all: "\<forall>n. \<exists>j\<le>nat L. position_used a p g (n + j)"
  shows "scan_loop a p L g scan_init = None"
proof (rule ccontr)
  assume "scan_loop a p L g scan_init \<noteq> None"
  then obtain st where "scan_loop a p L g scan_init = Some st" by auto
  from scan_loop_Some_closed[OF this] obtain k where "\<not> int (trailing_gap a p g k) \<le> L"
    by blast
  with L have "nat L < trailing_gap a p g k" by simp
  from trailing_gap_window[OF this] all show False by blast
qed

lemma scan_loop_negative:
  "L < 0 \<Longrightarrow> scan_loop a p L g scan_init = Some scan_init"
  by (rule scan_loop_stop) (simp add: scan_init_def)

lemma scan_loop_returns:
  assumes "L < 0 \<or> (\<exists>n. \<forall>j\<le>nat L. \<not> position_used a p g (n + j))"
  shows "\<exists>st. scan_loop a p L g scan_init = Some st"
proof (cases "L < 0")
  case True
  then show ?thesis by (auto simp: scan_loop_negative)
next
  case False
  with assms have L: "0 \<le> L" and ex: "\<exists>n. \<forall>j\<le>nat L. \<not> position_used a p g (n + j)"
    by auto
  define n where "n = (LEAST n. \<forall>j\<le>nat L. \<not> position_used a p g (n + j))"
  have win: "\<forall>j\<le>nat L. \<not> position_used a p g (n + j)"
    unfolding n_def using ex by (rule LeastI_ex)
  have first: "\<forall>m<n. \<exists>j\<le>nat L. position_used a p g (m + j)"
    unfolding n_def using not_less_Least by blast
  from scan_loop_window(1)[OF L win first] show ?thesis by blast
qed

section \<open>Evaluating the sample values\<close>

lemma sample_hasTx:
  "addressHasTx a (sample_provider used) = (address a \<in> set used)"
  by (simp add: addressHasTx_def sample_provider_def)

lemmas sample_defs = sample_account_def fromCredentials_def sample_payment_key_def
  sample_stake_key_def sample_credential_def sample_network_def

lemma records_path_sample: "records_path sample_account"
  by (simp add: records_path_def sample_account_def)

lemma sample_payment_address:
  "payment_address sample_core (address (sample_account \<lparr> path_index = 0, path_type = External \<rparr> 0))"
  "payment_address sample_core (address (sample_account \<lparr> path_index = 0, path_type = Internal \<rparr> 0))"
  by code_simp+

lemma sample_canonical_text:
  "replicate n (CHR ''i'') @ CHR '':'' # CHR ''k'' # CHR ''t'' # replicate s (CHR ''i'') = '':kt''
   \<Longrightarrow> n = 0 \<and> s = 0"
  by (cases n; cases s) auto

lemma sample_used_payments_eq:
  "sample_used_payments =
     [''b0kx:kt'', ''b0kxi:kt'', ''b0kxii:kt'', ''b0kxiiiii:kt'', ''b0kxiiiiiiiiii:kt'']"
  by code_simp

lemma upt_0_5: "[0..<5] = [0, 1, 2, 3, 4::nat]"
  by code_simp

lemma upt_0_9: "[0..<9] = [0, 1, 2, 3, 4, 5, 6, 7, 8::nat]"
  by code_simp

lemma upt_1_10: "[1..<10] = [1, 2, 3, 4, 5, 6, 7, 8, 9::nat]"
  by code_simp

section \<open>The two passes\<close>

lemma derived_at_paymentKeyArgs:
  "derived_at account paymentKeyArgs t i = account \<lparr> path_index = i + 1, path_type = t \<rparr> 0"
  by (simp add: derived_at_def paymentKeyArgs_def)

lemma derived_at_stakeKeyArgs:
  "derived_at account stakeKeyArgs t i = account \<lparr> path_index = 0, path_type = t \<rparr> (i + 1)"
  by (simp add: derived_at_def stakeKeyArgs_def)

lemma discoverAddresses_Some:
  assumes "discoverAddresses a p L g = Some found"
  shows "\<exists>k. found = concat (map (used_at a p g) [0..<k])"
proof -
  from assms obtain st where "scan_loop a p L g scan_init = Some st" "found = addresses st"
    by (auto simp: discoverAddresses_def)
  with scan_loop_Some_closed[of a p L g st] show ?thesis by auto
qed

lemma used_at_cases:
  "x \<in> set (used_at a p g i)
   \<Longrightarrow> (x = derived_at a g External i \<or> x = derived_at a g Internal i) \<and> addressHasTx x p"
  by (auto simp: used_at_def split: if_splits)

section \<open>C1: the gap-limit search\<close>

text \<open>
  Claim C1. Let \<open>lookAheadCount \<ge> 0\<close>, for any account, provider and callback.
  \<^item> One iteration, from any state, queries the External and the Internal address of
    the current index, appends exactly those of the two whose usage check returned
    true (External first), sets the gap to 0 when one of them was used and adds 1 to it
    otherwise, and adds 1 to the index.
  \<^item> If \<open>n\<close> is the first scan index that starts \<open>lookAheadCount + 1\<close> consecutive
    unused indices, the loop started from index 0, gap 0 and no addresses returns
    with gap \<open>lookAheadCount + 1\<close> and index \<open>n + lookAheadCount + 1\<close>, having queried
    both addresses of every index below that and found the used addresses of the
    indices below \<open>n\<close>; \<open>n\<close> is 0 or follows a used index (the last hit); and at every
    earlier iteration the gap was at most \<open>lookAheadCount\<close>.
  \<^item> The loop does not return exactly when no such \<open>n\<close> exists.
\<close>

theorem chain_scanner_gap_limit:
  assumes "0 \<le> lookAheadCount"
  shows "scan_body account provider getArgs st =
           \<lparr> currentGap = (if position_used account provider getArgs (currentIndex st) then 0
                            else currentGap st + 1),
             currentIndex = currentIndex st + 1,
             addresses = addresses st @ used_at account provider getArgs (currentIndex st),
             queried = queried st @ queried_at account getArgs (currentIndex st) \<rparr>
         \<and> ((\<forall>j\<in>{..nat lookAheadCount}. \<not> position_used account provider getArgs (n + j))
              \<and> (\<forall>m\<in>{..<n}. \<exists>j\<in>{..nat lookAheadCount}.
                     position_used account provider getArgs (m + j))
            \<longrightarrow> scan_loop account provider lookAheadCount getArgs scan_init =
                  Some \<lparr> currentGap = nat lookAheadCount + 1,
                         currentIndex = n + nat lookAheadCount + 1,
                         addresses = concat (map (used_at account provider getArgs) [0..<n]),
                         queried = concat (map (queried_at account getArgs)
                                             [0..<n + nat lookAheadCount + 1]) \<rparr>
                \<and> (n = 0 \<or> position_used account provider getArgs (n - 1))
                \<and> (\<forall>m\<in>{..<n + nat lookAheadCount + 1}.
                      int (currentGap ((scan_body account provider getArgs ^^ m) scan_init))
                        \<le> lookAheadCount))
         \<and> ((scan_loop account provider lookAheadCount getArgs scan_init = None)
              = (\<forall>k. \<exists>j\<in>{..nat lookAheadCount}. position_used account provider getArgs (k + j)))"
proof (intro conjI impI)
  show "scan_body account provider getArgs st =
           \<lparr> currentGap = (if position_used account provider getArgs (currentIndex st) then 0
                            else currentGap st + 1),
             currentIndex = currentIndex st + 1,
             addresses = addresses st @ used_at account provider getArgs (currentIndex st),
             queried = queried st @ queried_at account getArgs (currentIndex st) \<rparr>"
    by (simp add: scan_body_def Let_def position_used_def used_at_def queried_at_def
          derived_at_def)
next
  assume h: "(\<forall>j\<in>{..nat lookAheadCount}. \<not> position_used account provider getArgs (n + j))
              \<and> (\<forall>m\<in>{..<n}. \<exists>j\<in>{..nat lookAheadCount}.
                     position_used account provider getArgs (m + j))"
  then have win: "\<forall>j\<le>nat lookAheadCount. \<not> position_used account provider getArgs (n + j)"
    and first: "\<forall>m<n. \<exists>j\<le>nat lookAheadCount. position_used account provider getArgs (m + j)"
    by auto
  from scan_loop_window[OF assms win first]
  show "scan_loop account provider lookAheadCount getArgs scan_init =
                  Some \<lparr> currentGap = nat lookAheadCount + 1,
                         currentIndex = n + nat lookAheadCount + 1,
                         addresses = concat (map (used_at account provider getArgs) [0..<n]),
                         queried = concat (map (queried_at account getArgs)
                                             [0..<n + nat lookAheadCount + 1]) \<rparr>"
    and "n = 0 \<or> position_used account provider getArgs (n - 1)"
    and "\<forall>m\<in>{..<n + nat lookAheadCount + 1}.
           int (currentGap ((scan_body account provider getArgs ^^ m) scan_init))
             \<le> lookAheadCount"
    by auto
next
  let ?U = "position_used account provider getArgs"
  show "(scan_loop account provider lookAheadCount getArgs scan_init = None)
              = (\<forall>k. \<exists>j\<in>{..nat lookAheadCount}. ?U (k + j))"
  proof
    assume none: "scan_loop account provider lookAheadCount getArgs scan_init = None"
    show "\<forall>k. \<exists>j\<in>{..nat lookAheadCount}. ?U (k + j)"
    proof (rule ccontr)
      assume "\<not> (\<forall>k. \<exists>j\<in>{..nat lookAheadCount}. ?U (k + j))"
      then have ex: "\<exists>k. \<forall>j\<le>nat lookAheadCount. \<not> ?U (k + j)" by auto
      define n where "n = (LEAST k. \<forall>j\<le>nat lookAheadCount. \<not> ?U (k + j))"
      have win: "\<forall>j\<le>nat lookAheadCount. \<not> ?U (n + j)"
        unfolding n_def using ex by (rule LeastI_ex)
      have first: "\<forall>m<n. \<exists>j\<le>nat lookAheadCount. ?U (m + j)"
        unfolding n_def using not_less_Least by blast
      from scan_loop_window(1)[OF assms win first] none show False by simp
    qed
  next
    assume "\<forall>k. \<exists>j\<in>{..nat lookAheadCount}. ?U (k + j)"
    then have "\<forall>k. \<exists>j\<le>nat lookAheadCount. ?U (k + j)" by auto
    from scan_loop_None[OF assms this]
    show "scan_loop account provider lookAheadCount getArgs scan_init = None" .
  qed
qed

theorem chain_scanner_gap_limit_witness:
  "(0::int) \<le> 1
   \<and> scan_loop sample_account (sample_provider [''b0kxi:kt'']) 1 paymentKeyArgs scan_init =
       Some \<lparr> currentGap = 2, currentIndex = 3,
              addresses = [sample_account \<lparr> path_index = 1, path_type = External \<rparr> 0],
              queried = [''b0kxi:kt'', ''b0kni:kt'', ''b0kxii:kt'', ''b0knii:kt'',
                         ''b0kxiii:kt'', ''b0kniii:kt''] \<rparr>"
proof -
  have h0: "(0::int) \<le> 1" by simp
  have h1: "\<forall>j\<in>{..nat 1}. \<not> position_used sample_account (sample_provider [''b0kxi:kt''])
                          paymentKeyArgs (1 + j)"
    by (simp add: atMost_Suc position_used_def derived_at_def paymentKeyArgs_def
          sample_hasTx sample_defs)
  have h2: "\<forall>m\<in>{..<1}. \<exists>j\<in>{..nat 1}. position_used sample_account
                          (sample_provider [''b0kxi:kt'']) paymentKeyArgs (m + j)"
    by (simp add: atMost_Suc position_used_def derived_at_def paymentKeyArgs_def
          sample_hasTx sample_defs)
  have r: "concat (map (used_at sample_account (sample_provider [''b0kxi:kt'']) paymentKeyArgs) [0..<1])
       = [sample_account \<lparr> path_index = 1, path_type = External \<rparr> 0]"
    by code_simp
  have q: "concat (map (queried_at sample_account paymentKeyArgs) [0..<1 + nat 1 + 1])
       = [''b0kxi:kt'', ''b0kni:kt'', ''b0kxii:kt'', ''b0knii:kt'',
                         ''b0kxiii:kt'', ''b0kniii:kt'']"
    by code_simp
  from chain_scanner_gap_limit[OF h0, of sample_account "sample_provider [''b0kxi:kt'']"
      paymentKeyArgs scan_init 1] h1 h2
  have "scan_loop sample_account (sample_provider [''b0kxi:kt'']) 1 paymentKeyArgs scan_init =
       Some \<lparr> currentGap = nat 1 + 1, currentIndex = 1 + nat 1 + 1,
              addresses = concat (map (used_at sample_account (sample_provider [''b0kxi:kt'']) paymentKeyArgs) [0..<1]),
              queried = concat (map (queried_at sample_account paymentKeyArgs) [0..<1 + nat 1 + 1]) \<rparr>"
    by blast
  then have "scan_loop sample_account (sample_provider [''b0kxi:kt'']) 1 paymentKeyArgs scan_init =
       Some \<lparr> currentGap = 2, currentIndex = 3,
              addresses = [sample_account \<lparr> path_index = 1, path_type = External \<rparr> 0],
              queried = [''b0kxi:kt'', ''b0kni:kt'', ''b0kxii:kt'', ''b0knii:kt'',
                         ''b0kxiii:kt'', ''b0kniii:kt''] \<rparr>"
    unfolding r q by simp
  with h0 show ?thesis by blast
qed

section \<open>C7: only used addresses are emitted\<close>

text \<open>
  Claim C7. For every provider, look-ahead and callback, every address in the list
  of a pass had its own usage check return true: at every iteration of the loop, and
  so in the list a pass returns. The addresses whose check returned false are queried
  (they are in the trace \<open>queried\<close>, see C1) and never appended.
\<close>

theorem scanner_emits_only_used:
  "(\<forall>a\<in>set (addresses ((scan_body account provider getArgs ^^ k) scan_init)).
       addressHasTx a provider)
   \<and> (discoverAddresses account provider lookAheadCount getArgs = Some found
        \<longrightarrow> (\<forall>a\<in>set found. addressHasTx a provider))"
proof (intro conjI impI)
  have iter: "\<forall>a\<in>set (addresses ((scan_body account provider getArgs ^^ m) scan_init)).
       addressHasTx a provider" for m
    by (auto simp: scan_iter_closed used_at_def split: if_splits)
  show "\<forall>a\<in>set (addresses ((scan_body account provider getArgs ^^ k) scan_init)).
       addressHasTx a provider"
    by (rule iter)
  assume "discoverAddresses account provider lookAheadCount getArgs = Some found"
  then obtain st where st: "scan_loop account provider lookAheadCount getArgs scan_init = Some st"
    and found: "found = addresses st"
    by (auto simp: discoverAddresses_def)
  from scan_loop_Some_iter[OF st] obtain n where
    "st = (scan_body account provider getArgs ^^ n) scan_init" by blast
  with iter[of n] found show "\<forall>a\<in>set found. addressHasTx a provider" by simp
qed

theorem scanner_emits_only_used_witness:
  "discoverAddresses sample_account (sample_provider [''b0kxi:kt'']) 1 paymentKeyArgs =
     Some [sample_account \<lparr> path_index = 1, path_type = External \<rparr> 0]
   \<and> addressHasTx (sample_account \<lparr> path_index = 1, path_type = External \<rparr> 0)
        (sample_provider [''b0kxi:kt''])
   \<and> \<not> addressHasTx (sample_account \<lparr> path_index = 1, path_type = Internal \<rparr> 0)
        (sample_provider [''b0kxi:kt''])"
proof -
  have run: "discoverAddresses sample_account (sample_provider [''b0kxi:kt'']) 1 paymentKeyArgs =
     Some [sample_account \<lparr> path_index = 1, path_type = External \<rparr> 0]"
    by code_simp
  have no: "\<not> addressHasTx (sample_account \<lparr> path_index = 1, path_type = Internal \<rparr> 0)
        (sample_provider [''b0kxi:kt''])"
    by (simp add: sample_hasTx sample_defs)
  from scanner_emits_only_used[where account = sample_account
      and provider = "sample_provider [''b0kxi:kt'']" and getArgs = paymentKeyArgs
      and lookAheadCount = 1
      and found = "[sample_account \<lparr> path_index = 1, path_type = External \<rparr> 0]"] run
  have "addressHasTx (sample_account \<lparr> path_index = 1, path_type = External \<rparr> 0)
        (sample_provider [''b0kxi:kt''])"
    by simp
  with run no show ?thesis by blast
qed

section \<open>C3: the boundary of the payment-key pass\<close>

text \<open>
  Claim C3. Take \<open>lookAheadCount = 3\<close> and a provider that, among the payment indices
  1 to 9 at stake index 0, has history exactly at 1, 2 and 5 (on the External or the
  Internal address). Nothing is assumed about payment index 10 or above, so the
  provider may have history there. The payment-key pass, which queries payment index
  \<open>i + 1\<close> at scan index \<open>i\<close>, returns the used addresses of payment indices 1, 2 and 5
  and stops at scan index 9 with gap 4; its queries are the two addresses of each
  payment index from 1 to 9, so no payment index above 9 is queried.
\<close>

theorem payment_scan_boundary:
  assumes only: "\<forall>i\<in>{1..9}. \<forall>t. addressHasTx (account \<lparr> path_index = i, path_type = t \<rparr> 0) provider
                    \<longrightarrow> i \<in> {1, 2, 5}"
    and hits: "\<forall>i\<in>{1, 2, 5}. addressHasTx (account \<lparr> path_index = i, path_type = External \<rparr> 0) provider
                    \<or> addressHasTx (account \<lparr> path_index = i, path_type = Internal \<rparr> 0) provider"
  shows "scan_loop account provider 3 paymentKeyArgs scan_init =
           Some \<lparr> currentGap = 4, currentIndex = 9,
                  addresses = concat (map (\<lambda>i. filter (\<lambda>a. addressHasTx a provider)
                                 [account \<lparr> path_index = i, path_type = External \<rparr> 0,
                                  account \<lparr> path_index = i, path_type = Internal \<rparr> 0]) [1, 2, 5]),
                  queried = concat (map (\<lambda>i.
                                 [address (account \<lparr> path_index = i, path_type = External \<rparr> 0),
                                  address (account \<lparr> path_index = i, path_type = Internal \<rparr> 0)])
                               [1..<10]) \<rparr>"
proof -
  let ?U = "position_used account provider paymentKeyArgs"
  have U: "?U i = (addressHasTx (account \<lparr> path_index = i + 1, path_type = External \<rparr> 0) provider
                \<or> addressHasTx (account \<lparr> path_index = i + 1, path_type = Internal \<rparr> 0) provider)" for i
    by (simp add: position_used_def derived_at_paymentKeyArgs)
  have unused: "\<not> ?U i" if "i < 9" "i \<notin> {0, 1, 4}" for i
  proof -
    from that have "i + 1 \<in> {1..9}" "i + 1 \<notin> {1, 2, 5}" by auto
    with only show ?thesis unfolding U by blast
  qed
  have used: "?U 0" "?U 1" "?U 4"
    using hits unfolding U by (simp_all add: eval_nat_numeral)
  have win: "\<forall>j\<le>nat 3. \<not> ?U (5 + j)"
    by (intro allI impI unused) auto
  have first: "\<forall>m<5. \<exists>j\<le>nat 3. ?U (m + j)"
  proof (intro allI impI)
    fix m :: nat assume "m < 5"
    then consider "m = 0" | "m = 1" | "m = 2" | "m = 3" | "m = 4" by linarith
    then show "\<exists>j\<le>nat 3. ?U (m + j)"
    proof cases
      case 1 with used(1) show ?thesis by (intro exI[of _ 0]) simp
    next
      case 2 with used(2) show ?thesis by (intro exI[of _ 0]) simp
    next
      case 3 with used(3) show ?thesis by (intro exI[of _ 2]) simp
    next
      case 4 with used(3) show ?thesis by (intro exI[of _ 1]) simp
    next
      case 5 with used(3) show ?thesis by (intro exI[of _ 0]) simp
    qed
  qed
  have e2: "used_at account provider paymentKeyArgs 2 = []"
    using unused[of 2] by (simp add: used_at_def position_used_def)
  have e3: "used_at account provider paymentKeyArgs 3 = []"
    using unused[of 3] by (simp add: used_at_def position_used_def)
  have found: "concat (map (used_at account provider paymentKeyArgs) [0..<5]) =
      concat (map (\<lambda>i. filter (\<lambda>a. addressHasTx a provider)
                                 [account \<lparr> path_index = i, path_type = External \<rparr> 0,
                                  account \<lparr> path_index = i, path_type = Internal \<rparr> 0]) [1, 2, 5])"
    unfolding upt_0_5 using e2 e3
    by (simp add: used_at_def derived_at_paymentKeyArgs eval_nat_numeral)
  have asked: "concat (map (queried_at account paymentKeyArgs) [0..<5 + nat 3 + 1]) =
      concat (map (\<lambda>i.
                                 [address (account \<lparr> path_index = i, path_type = External \<rparr> 0),
                                  address (account \<lparr> path_index = i, path_type = Internal \<rparr> 0)])
                               [1..<10])"
    unfolding upt_1_10 using upt_0_9
    by (simp add: queried_at_def derived_at_paymentKeyArgs eval_nat_numeral)
  from scan_loop_window(1)[of 3 account provider paymentKeyArgs 5, OF _ win first]
  show ?thesis unfolding found asked by simp
qed

theorem payment_scan_boundary_witness:
  "scan_loop sample_account (sample_provider sample_used_payments) 3 paymentKeyArgs scan_init =
     Some \<lparr> currentGap = 4, currentIndex = 9,
            addresses = [sample_account \<lparr> path_index = 1, path_type = External \<rparr> 0,
                         sample_account \<lparr> path_index = 2, path_type = External \<rparr> 0,
                         sample_account \<lparr> path_index = 5, path_type = External \<rparr> 0],
            queried = [''b0kxi:kt'', ''b0kni:kt'', ''b0kxii:kt'', ''b0knii:kt'',
                       ''b0kxiii:kt'', ''b0kniii:kt'', ''b0kxiiii:kt'', ''b0kniiii:kt'',
                       ''b0kxiiiii:kt'', ''b0kniiiii:kt'', ''b0kxiiiiii:kt'', ''b0kniiiiii:kt'',
                       ''b0kxiiiiiii:kt'', ''b0kniiiiiii:kt'', ''b0kxiiiiiiii:kt'',
                       ''b0kniiiiiiii:kt'', ''b0kxiiiiiiiii:kt'', ''b0kniiiiiiiii:kt''] \<rparr>
   \<and> addressHasTx (sample_account \<lparr> path_index = 10, path_type = External \<rparr> 0)
         (sample_provider sample_used_payments)"
proof -
  let ?p = "sample_provider sample_used_payments"
  have range: "{1..9} = {1, 2, 3, 4, 5, 6, 7, 8, 9::nat}" by auto
  have only: "\<forall>i\<in>{1..9}. \<forall>t. addressHasTx (sample_account \<lparr> path_index = i, path_type = t \<rparr> 0) ?p
                    \<longrightarrow> i \<in> {1, 2, 5}"
    unfolding range
    by (simp add: sample_hasTx sample_used_payments_eq sample_defs eval_nat_numeral
          split: AddressType.split)
  have hits: "\<forall>i\<in>{1, 2, 5}. addressHasTx (sample_account \<lparr> path_index = i, path_type = External \<rparr> 0) ?p
                    \<or> addressHasTx (sample_account \<lparr> path_index = i, path_type = Internal \<rparr> 0) ?p"
    by (simp add: sample_hasTx sample_used_payments_eq sample_defs eval_nat_numeral)
  have ten: "addressHasTx (sample_account \<lparr> path_index = 10, path_type = External \<rparr> 0) ?p"
    by (simp add: sample_hasTx sample_used_payments_eq sample_defs eval_nat_numeral)
  have found: "concat (map (\<lambda>i. filter (\<lambda>a. addressHasTx a ?p)
                                 [sample_account \<lparr> path_index = i, path_type = External \<rparr> 0,
                                  sample_account \<lparr> path_index = i, path_type = Internal \<rparr> 0]) [1, 2, 5])
      = [sample_account \<lparr> path_index = 1, path_type = External \<rparr> 0,
                         sample_account \<lparr> path_index = 2, path_type = External \<rparr> 0,
                         sample_account \<lparr> path_index = 5, path_type = External \<rparr> 0]"
    by code_simp
  have asked: "concat (map (\<lambda>i.
                                 [address (sample_account \<lparr> path_index = i, path_type = External \<rparr> 0),
                                  address (sample_account \<lparr> path_index = i, path_type = Internal \<rparr> 0)])
                               [1..<10])
      = [''b0kxi:kt'', ''b0kni:kt'', ''b0kxii:kt'', ''b0knii:kt'',
                       ''b0kxiii:kt'', ''b0kniii:kt'', ''b0kxiiii:kt'', ''b0kniiii:kt'',
                       ''b0kxiiiii:kt'', ''b0kniiiii:kt'', ''b0kxiiiiii:kt'', ''b0kniiiiii:kt'',
                       ''b0kxiiiiiii:kt'', ''b0kniiiiiii:kt'', ''b0kxiiiiiiii:kt'',
                       ''b0kniiiiiiii:kt'', ''b0kxiiiiiiiii:kt'', ''b0kniiiiiiiii:kt'']"
    by code_simp
  from payment_scan_boundary[where account = sample_account and provider = ?p, OF only hits] ten
  show ?thesis unfolding found asked by blast
qed

section \<open>C8: the credential extractor\<close>

text \<open>
  Claim C8. \<^verbatim>\<open>getPaymentCredential\<close> returns the payment credential of every
  enterprise address and of every base address, and raises the unsupported-address-type
  error on pointer, reward and Byron addresses. It raises exactly when the kind of the
  address is none of the six kinds of the \<^verbatim>\<open>switch\<close>, and the error is never another
  one.
\<close>

theorem getPaymentCredential_by_kind:
  "getPaymentCredential userAddress =
     (case userAddress of
        Base b \<Rightarrow> Inr (base_paymentCredential b)
      | Enterprise e \<Rightarrow> Inr (enterprise_paymentCredential e)
      | Pointer n c \<Rightarrow> Inl UnsupportedAddressType
      | Reward n c \<Rightarrow> Inl UnsupportedAddressType
      | Bootstrap content \<Rightarrow> Inl UnsupportedAddressType)
   \<and> (getPaymentCredential userAddress = Inl UnsupportedAddressType)
       = (getType userAddress \<notin> {EnterpriseKey, EnterpriseScript, BasePaymentKeyStakeKey,
            BasePaymentKeyStakeScript, BasePaymentScriptStakeScript, BasePaymentScriptStakeKey})
   \<and> isl (getPaymentCredential userAddress)
       = (getType userAddress \<notin> {EnterpriseKey, EnterpriseScript, BasePaymentKeyStakeKey,
            BasePaymentKeyStakeScript, BasePaymentScriptStakeScript, BasePaymentScriptStakeKey})
   \<and> (getType userAddress \<in> {PointerKey, PointerScript, RewardKey, RewardScript, Byron})
       = (getPaymentCredential userAddress = Inl UnsupportedAddressType)"
  by (cases userAddress)
     (auto simp: getPaymentCredential_def Let_def split: CredentialType.splits)

section \<open>C6: the programmable-token transform\<close>

text \<open>
  Claim C6. Let the text \<open>userAddress\<close> decode to an address of a supported kind. Then
  the address is a base address \<open>b\<close> or an enterprise address \<open>e\<close>, and for every
  \<open>network\<close> the transform returns the encoding of the base address on \<open>network\<close> (the
  network passed to the transform) whose payment credential is the script-hash
  credential of the constant \<^verbatim>\<open>programmableLogicBase\<close> and whose stake credential is
  the payment credential stored in the decoded address: the field
  \<open>base_paymentCredential b\<close>, respectively \<open>enterprise_paymentCredential e\<close>. An address
  built this way is of a base kind with a script payment credential. The source reads
  only its two arguments and constants, so equal arguments give the same output.
\<close>

theorem programmable_address_transform:
  assumes "fromString core userAddress = Some parsed"
    and "getType parsed \<in> {EnterpriseKey, EnterpriseScript, BasePaymentKeyStakeKey,
           BasePaymentKeyStakeScript, BasePaymentScriptStakeScript, BasePaymentScriptStakeKey}"
  shows "((\<exists>b. parsed = Base b) \<or> (\<exists>e. parsed = Enterprise e))
       \<and> (parsed = Base b \<longrightarrow>
            makeProgrammableTokenAddress core userAddress network =
              Inr (toBech32 core (Base
                \<lparr> base_networkId = network,
                  base_paymentCredential =
                    \<lparr> hash = scriptHash core programmableLogicBase, cred_type = ScriptHash \<rparr>,
                  base_stakeCredential = base_paymentCredential b \<rparr>)))
       \<and> (parsed = Enterprise e \<longrightarrow>
            makeProgrammableTokenAddress core userAddress network =
              Inr (toBech32 core (Base
                \<lparr> base_networkId = network,
                  base_paymentCredential =
                    \<lparr> hash = scriptHash core programmableLogicBase, cred_type = ScriptHash \<rparr>,
                  base_stakeCredential = enterprise_paymentCredential e \<rparr>)))
       \<and> getType (Base
                \<lparr> base_networkId = network,
                  base_paymentCredential =
                    \<lparr> hash = scriptHash core programmableLogicBase, cred_type = ScriptHash \<rparr>,
                  base_stakeCredential = stake \<rparr>)
             \<in> {BasePaymentScriptStakeKey, BasePaymentScriptStakeScript}"
proof (intro conjI impI)
  show "(\<exists>b. parsed = Base b) \<or> (\<exists>e. parsed = Enterprise e)"
    using assms(2) by (cases parsed) (auto split: CredentialType.splits)
next
  assume "parsed = Base b"
  with assms(1) show "makeProgrammableTokenAddress core userAddress network =
              Inr (toBech32 core (Base
                \<lparr> base_networkId = network,
                  base_paymentCredential =
                    \<lparr> hash = scriptHash core programmableLogicBase, cred_type = ScriptHash \<rparr>,
                  base_stakeCredential = base_paymentCredential b \<rparr>))"
    by (simp add: makeProgrammableTokenAddress_def getPaymentCredential_def Let_def
          toAddress_def fromCredentials_def split: CredentialType.splits)
next
  assume "parsed = Enterprise e"
  with assms(1) show "makeProgrammableTokenAddress core userAddress network =
              Inr (toBech32 core (Base
                \<lparr> base_networkId = network,
                  base_paymentCredential =
                    \<lparr> hash = scriptHash core programmableLogicBase, cred_type = ScriptHash \<rparr>,
                  base_stakeCredential = enterprise_paymentCredential e \<rparr>))"
    by (simp add: makeProgrammableTokenAddress_def getPaymentCredential_def Let_def
          toAddress_def fromCredentials_def split: CredentialType.splits)
next
  show "getType (Base
                \<lparr> base_networkId = network,
                  base_paymentCredential =
                    \<lparr> hash = scriptHash core programmableLogicBase, cred_type = ScriptHash \<rparr>,
                  base_stakeCredential = stake \<rparr>)
             \<in> {BasePaymentScriptStakeKey, BasePaymentScriptStakeScript}"
    by (simp split: CredentialType.splits)
qed

theorem programmable_address_transform_witness:
  "makeProgrammableTokenAddress sample_core ''b0kxi:kt'' Mainnet = Inr ''b1slogic:kxi''
   \<and> makeProgrammableTokenAddress sample_core ''e0sabc'' Mainnet = Inr ''b1slogic:sabc''
   \<and> fromString sample_core ''b1slogic:kxi'' =
       Some (Base \<lparr> base_networkId = Mainnet,
                    base_paymentCredential = \<lparr> hash = ''logic'', cred_type = ScriptHash \<rparr>,
                    base_stakeCredential = \<lparr> hash = ''xi'', cred_type = KeyHash \<rparr> \<rparr>)"
proof -
  let ?b = "\<lparr> base_networkId = Testnet,
              base_paymentCredential = \<lparr> hash = ''xi'', cred_type = KeyHash \<rparr>,
              base_stakeCredential = \<lparr> hash = ''t'', cred_type = KeyHash \<rparr> \<rparr>"
  let ?e = "\<lparr> enterprise_networkId = Testnet,
              enterprise_paymentCredential = \<lparr> hash = ''abc'', cred_type = ScriptHash \<rparr> \<rparr>"
  have parse_b: "fromString sample_core ''b0kxi:kt'' = Some (Base ?b)"
    by code_simp
  have kind_b: "getType (Base ?b) \<in> {EnterpriseKey, EnterpriseScript, BasePaymentKeyStakeKey,
           BasePaymentKeyStakeScript, BasePaymentScriptStakeScript, BasePaymentScriptStakeKey}"
    by simp
  have parse_e: "fromString sample_core ''e0sabc'' = Some (Enterprise ?e)"
    by code_simp
  have kind_e: "getType (Enterprise ?e) \<in> {EnterpriseKey, EnterpriseScript,
           BasePaymentKeyStakeKey, BasePaymentKeyStakeScript, BasePaymentScriptStakeScript,
           BasePaymentScriptStakeKey}"
    by simp
  have decoded: "fromString sample_core ''b1slogic:kxi'' =
       Some (Base \<lparr> base_networkId = Mainnet,
                    base_paymentCredential = \<lparr> hash = ''logic'', cred_type = ScriptHash \<rparr>,
                    base_stakeCredential = \<lparr> hash = ''xi'', cred_type = KeyHash \<rparr> \<rparr>)"
    by code_simp
  from programmable_address_transform[OF parse_b kind_b, where b = ?b and network = Mainnet]
  have out_b: "makeProgrammableTokenAddress sample_core ''b0kxi:kt'' Mainnet = Inr ''b1slogic:kxi''"
    by (simp add: sample_core_def sample_credential_def sample_network_def)
  from programmable_address_transform[OF parse_e kind_e, where e = ?e and network = Mainnet]
  have out_e: "makeProgrammableTokenAddress sample_core ''e0sabc'' Mainnet = Inr ''b1slogic:sabc''"
    by (simp add: sample_core_def sample_credential_def sample_network_def)
  from out_b out_e decoded show ?thesis by blast
qed

section \<open>C10: the fields a programmable entry keeps\<close>

lemma progTokenAddresses_from_nth:
  "progTokenAddresses_from core lastIdx idx addrs = Inr progs
   \<Longrightarrow> length progs = length addrs
       \<and> (\<forall>i<length addrs.
             \<exists>programmable.
               makeProgrammableTokenAddress core (address (addrs ! i)) (networkId (addrs ! i))
                 = Inr programmable
             \<and> progs ! i = (addrs ! i)\<lparr> index := lastIdx + (idx + i) + 1,
                                         address := programmable \<rparr>)"
proof (induction addrs arbitrary: idx progs)
  case Nil
  then show ?case by simp
next
  case (Cons a rest)
  from Cons.prems obtain programmable tl where
    p: "makeProgrammableTokenAddress core (address a) (networkId a) = Inr programmable"
    and t: "progTokenAddresses_from core lastIdx (idx + 1) rest = Inr tl"
    and progs: "progs = a\<lparr> index := lastIdx + idx + 1, address := programmable \<rparr> # tl"
    by (auto split: sum.splits)
  from Cons.IH[OF t] have len: "length tl = length rest"
    and nth: "\<And>i. i < length rest \<Longrightarrow>
             \<exists>programmable.
               makeProgrammableTokenAddress core (address (rest ! i)) (networkId (rest ! i))
                 = Inr programmable
             \<and> tl ! i = (rest ! i)\<lparr> index := lastIdx + (idx + 1 + i) + 1,
                                      address := programmable \<rparr>"
    by blast+
  show ?case
  proof (intro conjI allI impI)
    show "length progs = length (a # rest)" using len progs by simp
    fix i assume "i < length (a # rest)"
    then show "\<exists>programmable.
               makeProgrammableTokenAddress core (address ((a # rest) ! i))
                 (networkId ((a # rest) ! i)) = Inr programmable
             \<and> progs ! i = ((a # rest) ! i)\<lparr> index := lastIdx + (idx + i) + 1,
                                               address := programmable \<rparr>"
    proof (cases i)
      case 0
      with p progs show ?thesis by simp
    next
      case (Suc j)
      with \<open>i < length (a # rest)\<close> have "j < length rest" by simp
      from nth[OF this] Suc progs show ?thesis by simp
    qed
  qed
qed

text \<open>
  Claim C10. When the programmable entries are built from a list of addresses, there
  is one entry per address, and the entry at position \<open>i\<close> has the \<^verbatim>\<open>type\<close>,
  \<^verbatim>\<open>networkId\<close>, \<^verbatim>\<open>accountIndex\<close>, \<^verbatim>\<open>rewardAccount\<close> and
  \<^verbatim>\<open>stakeKeyDerivationPath\<close> of the address at position \<open>i\<close>: it is that address
  with \<^verbatim>\<open>index\<close> and \<^verbatim>\<open>address\<close> replaced, the new \<^verbatim>\<open>address\<close> being the
  programmable-token address of the old one.
\<close>

theorem programmable_entry_frame:
  assumes "progTokenAddresses core addrs = Inr progs"
  shows "length progs = length addrs
       \<and> (\<forall>i<length addrs.
             type (progs ! i) = type (addrs ! i)
           \<and> networkId (progs ! i) = networkId (addrs ! i)
           \<and> accountIndex (progs ! i) = accountIndex (addrs ! i)
           \<and> rewardAccount (progs ! i) = rewardAccount (addrs ! i)
           \<and> stakeKeyDerivationPath (progs ! i) = stakeKeyDerivationPath (addrs ! i)
           \<and> progs ! i = (addrs ! i)\<lparr> index := index (progs ! i),
                                       address := address (progs ! i) \<rparr>
           \<and> makeProgrammableTokenAddress core (address (addrs ! i)) (networkId (addrs ! i))
               = Inr (address (progs ! i)))"
proof -
  from assms have "progTokenAddresses_from core (index (last addrs)) 0 addrs = Inr progs"
    by (simp add: progTokenAddresses_def split: list.splits)
  from progTokenAddresses_from_nth[OF this]
  have len: "length progs = length addrs"
    and nth: "\<And>i. i < length addrs \<Longrightarrow>
             \<exists>programmable.
               makeProgrammableTokenAddress core (address (addrs ! i)) (networkId (addrs ! i))
                 = Inr programmable
             \<and> progs ! i = (addrs ! i)\<lparr> index := index (last addrs) + (0 + i) + 1,
                                         address := programmable \<rparr>"
    by blast+
  show ?thesis
  proof (intro conjI allI impI)
    show "length progs = length addrs" by (rule len)
  next
    fix i assume "i < length addrs"
    from nth[OF this] obtain programmable where
      p: "makeProgrammableTokenAddress core (address (addrs ! i)) (networkId (addrs ! i))
            = Inr programmable"
      and e: "progs ! i = (addrs ! i)\<lparr> index := index (last addrs) + (0 + i) + 1,
                                         address := programmable \<rparr>"
      by blast
    show "type (progs ! i) = type (addrs ! i)" by (simp add: e)
    show "networkId (progs ! i) = networkId (addrs ! i)" by (simp add: e)
    show "accountIndex (progs ! i) = accountIndex (addrs ! i)" by (simp add: e)
    show "rewardAccount (progs ! i) = rewardAccount (addrs ! i)" by (simp add: e)
    show "stakeKeyDerivationPath (progs ! i) = stakeKeyDerivationPath (addrs ! i)"
      by (simp add: e)
    show "progs ! i = (addrs ! i)\<lparr> index := index (progs ! i),
                                       address := address (progs ! i) \<rparr>"
      by (simp add: e)
    show "makeProgrammableTokenAddress core (address (addrs ! i)) (networkId (addrs ! i))
               = Inr (address (progs ! i))"
      by (simp add: e p)
  qed
qed

theorem programmable_entry_frame_witness:
  "progTokenAddresses sample_core
     [sample_account \<lparr> path_index = 0, path_type = External \<rparr> 0,
      sample_account \<lparr> path_index = 1, path_type = Internal \<rparr> 2] =
     Inr [(sample_account \<lparr> path_index = 0, path_type = External \<rparr> 0)
            \<lparr> index := 2, address := ''b0slogic:kx'' \<rparr>,
          (sample_account \<lparr> path_index = 1, path_type = Internal \<rparr> 2)
            \<lparr> index := 3, address := ''b0slogic:kni'' \<rparr>]
   \<and> rewardAccount ([(sample_account \<lparr> path_index = 0, path_type = External \<rparr> 0)
                         \<lparr> index := 2, address := ''b0slogic:kx'' \<rparr>,
                       (sample_account \<lparr> path_index = 1, path_type = Internal \<rparr> 2)
                         \<lparr> index := 3, address := ''b0slogic:kni'' \<rparr>] ! 1)
       = rewardAccount ([sample_account \<lparr> path_index = 0, path_type = External \<rparr> 0,
                         sample_account \<lparr> path_index = 1, path_type = Internal \<rparr> 2] ! 1)
   \<and> stakeKeyDerivationPath
         ([(sample_account \<lparr> path_index = 0, path_type = External \<rparr> 0)
             \<lparr> index := 2, address := ''b0slogic:kx'' \<rparr>,
           (sample_account \<lparr> path_index = 1, path_type = Internal \<rparr> 2)
             \<lparr> index := 3, address := ''b0slogic:kni'' \<rparr>] ! 1)
       = stakeKeyDerivationPath
           ([sample_account \<lparr> path_index = 0, path_type = External \<rparr> 0,
             sample_account \<lparr> path_index = 1, path_type = Internal \<rparr> 2] ! 1)"
proof -
  let ?addrs = "[sample_account \<lparr> path_index = 0, path_type = External \<rparr> 0,
                 sample_account \<lparr> path_index = 1, path_type = Internal \<rparr> 2]"
  let ?progs = "[(sample_account \<lparr> path_index = 0, path_type = External \<rparr> 0)
                   \<lparr> index := 2, address := ''b0slogic:kx'' \<rparr>,
                 (sample_account \<lparr> path_index = 1, path_type = Internal \<rparr> 2)
                   \<lparr> index := 3, address := ''b0slogic:kni'' \<rparr>]"
  have pg: "progTokenAddresses sample_core ?addrs = Inr ?progs"
    by code_simp
  have "1 < length ?addrs" by simp
  with programmable_entry_frame[OF pg]
  have "rewardAccount (?progs ! 1) = rewardAccount (?addrs ! 1)
      \<and> stakeKeyDerivationPath (?progs ! 1) = stakeKeyDerivationPath (?addrs ! 1)"
    by blast
  with pg show ?thesis by blast
qed

section \<open>Deduplication and the final sort\<close>

lemma uniqBy_seen_subset: "set (uniqBy_seen f seen xs) \<subseteq> set xs"
  by (induction xs arbitrary: seen) auto

lemma uniqBy_seen_keys: "f ` set (uniqBy_seen f seen xs) = f ` set xs - set seen"
  by (induction xs arbitrary: seen) auto

lemma uniqBy_seen_distinct: "distinct (map f (uniqBy_seen f seen xs))"
proof (induction xs arbitrary: seen)
  case Nil
  show ?case by simp
next
  case (Cons x xs)
  have "f x \<notin> f ` set (uniqBy_seen f (f x # seen) xs)"
    by (simp add: uniqBy_seen_keys)
  with Cons show ?case by simp
qed

lemma uniqBy_seen_first:
  "x \<in> set (uniqBy_seen f seen xs) \<Longrightarrow> find (\<lambda>y. f y = f x) xs = Some x"
proof (induction xs arbitrary: seen)
  case Nil
  then show ?case by simp
next
  case (Cons y ys)
  show ?case
  proof (cases "f y \<in> set seen")
    case True
    with Cons.prems have x: "x \<in> set (uniqBy_seen f seen ys)" by simp
    then have "f x \<in> f ` set (uniqBy_seen f seen ys)" by blast
    then have "f x \<notin> set seen" by (simp add: uniqBy_seen_keys)
    with True have "f y \<noteq> f x" by auto
    with Cons.IH[OF x] show ?thesis by simp
  next
    case False
    with Cons.prems consider "x = y" | "x \<in> set (uniqBy_seen f (f y # seen) ys)" by auto
    then show ?thesis
    proof cases
      case 1
      then show ?thesis by simp
    next
      case 2
      then have "f x \<in> f ` set (uniqBy_seen f (f y # seen) ys)" by blast
      then have "f y \<noteq> f x" by (auto simp: uniqBy_seen_keys)
      with Cons.IH[OF 2] show ?thesis by simp
    qed
  qed
qed

lemma uniqBy_seen_subseq: "subseq (uniqBy_seen f seen xs) xs"
  by (induction xs arbitrary: seen) auto

lemma uniqBy_seen_sorted:
  "sorted (map g xs) \<Longrightarrow> sorted (map g (uniqBy_seen f seen xs))"
proof (induction xs arbitrary: seen)
  case Nil
  show ?case by simp
next
  case (Cons x xs)
  have "set (uniqBy_seen f s xs) \<subseteq> set xs" for s by (rule uniqBy_seen_subset)
  with Cons show ?case by (auto simp: subset_iff)
qed

lemma uniqBy_Cons: "uniqBy (x # xs) f = x # uniqBy_seen f [f x] xs"
  by (simp add: uniqBy_def)

lemma compareAddresses_le:
  "(\<exists>c. compareAddresses a b = Inr c \<and> c \<le> 0) = ordered_pair a b"
  by (auto simp: compareAddresses_def ordered_pair_def split: option.splits)

lemma compareAddresses_gt:
  "compareAddresses a b = Inr c \<Longrightarrow> 0 < c \<Longrightarrow> ordered_pair b a"
  by (auto simp: compareAddresses_def ordered_pair_def split: option.splits if_splits)

lemma ordered_pair_trans:
  "ordered_pair a b \<Longrightarrow> ordered_pair b c \<Longrightarrow> ordered_pair a c"
  by (auto simp: ordered_pair_def split: option.splits)

lemma ordered_pair_index: "index a < index b \<Longrightarrow> ordered_pair a b"
  by (simp add: ordered_pair_def)

lemma insertSorted_mset:
  "insertSorted x r = Inr r' \<Longrightarrow> mset r' = add_mset x (mset r)"
  by (induction r arbitrary: r') (auto split: sum.splits if_splits)

lemma insertSorted_sorted:
  "sorted_wrt ordered_pair r \<Longrightarrow> insertSorted x r = Inr r' \<Longrightarrow> sorted_wrt ordered_pair r'"
proof (induction r arbitrary: r')
  case Nil
  then show ?case by auto
next
  case (Cons y ys)
  from Cons.prems(2) obtain c where c: "compareAddresses x y = Inr c"
    by (auto split: sum.splits)
  show ?case
  proof (cases "c \<le> 0")
    case True
    with c Cons.prems(2) have r': "r' = x # y # ys" by simp
    from c True have xy: "ordered_pair x y" using compareAddresses_le by blast
    with Cons.prems(1) have "\<forall>z\<in>set ys. ordered_pair x z"
      by (auto intro: ordered_pair_trans)
    with xy Cons.prems(1) r' show ?thesis by simp
  next
    case False
    with c Cons.prems(2) obtain t where t: "insertSorted x ys = Inr t" and r': "r' = y # t"
      by (auto split: sum.splits)
    from False c have yx: "ordered_pair y x" by (intro compareAddresses_gt) auto
    from Cons.prems(1) have "sorted_wrt ordered_pair ys" by simp
    from Cons.IH[OF this t] have st: "sorted_wrt ordered_pair t" .
    from insertSorted_mset[OF t] have "set t = insert x (set ys)"
      by (metis set_mset_add_mset_insert set_mset_mset)
    with yx Cons.prems(1) st r' show ?thesis by auto
  qed
qed

lemma sortAddresses_sorted:
  "sortAddresses xs = Inr r \<Longrightarrow> sorted_wrt ordered_pair r \<and> mset r = mset xs"
proof (induction xs arbitrary: r)
  case Nil
  then show ?case by simp
next
  case (Cons x xs)
  from Cons.prems obtain t where t: "sortAddresses xs = Inr t" and r: "insertSorted x t = Inr r"
    by (auto split: sum.splits)
  from Cons.IH[OF t] insertSorted_sorted[OF _ r] insertSorted_mset[OF r]
  show ?case by simp
qed

lemma insertSorted_front:
  "r = [] \<or> ordered_pair x (hd r) \<Longrightarrow> insertSorted x r = Inr (x # r)"
proof (cases r)
  case Nil
  then show ?thesis by simp
next
  case (Cons y ys)
  assume "r = [] \<or> ordered_pair x (hd r)"
  with Cons have "ordered_pair x y" by simp
  then obtain c where "compareAddresses x y = Inr c" "c \<le> 0"
    using compareAddresses_le by blast
  with Cons show ?thesis by simp
qed

lemma sortAddresses_sorted_id:
  "sorted_wrt ordered_pair xs \<Longrightarrow> sortAddresses xs = Inr xs"
proof (induction xs)
  case Nil
  show ?case by simp
next
  case (Cons x xs)
  then have "sortAddresses xs = Inr xs" by simp
  moreover from Cons.prems have "xs = [] \<or> ordered_pair x (hd xs)"
    by (cases xs) auto
  ultimately show ?case by (simp add: insertSorted_front)
qed

lemma insertSorted_append:
  "insertSorted x r = Inr r' \<Longrightarrow> \<forall>p\<in>set ps. index x < index p
   \<Longrightarrow> insertSorted x (r @ ps) = Inr (r' @ ps)"
proof (induction r arbitrary: r')
  case Nil
  then have "ps = [] \<or> ordered_pair x (hd ps)"
    by (cases ps) (auto intro: ordered_pair_index)
  from insertSorted_front[OF this] Nil show ?case by simp
next
  case (Cons y ys)
  then show ?case by (auto split: sum.splits if_splits)
qed

lemma sortAddresses_append:
  "sortAddresses xs = Inr r \<Longrightarrow> sorted_wrt ordered_pair ps
   \<Longrightarrow> \<forall>x\<in>set xs. \<forall>p\<in>set ps. index x < index p
   \<Longrightarrow> sortAddresses (xs @ ps) = Inr (r @ ps)"
proof (induction xs arbitrary: r)
  case Nil
  then show ?case by (simp add: sortAddresses_sorted_id)
next
  case (Cons x xs)
  from Cons.prems(1) obtain t where t: "sortAddresses xs = Inr t" and r: "insertSorted x t = Inr r"
    by (auto split: sum.splits)
  from Cons.IH[OF t Cons.prems(2)] Cons.prems(3)
  have "sortAddresses (xs @ ps) = Inr (t @ ps)" by simp
  moreover from Cons.prems(3) have "\<forall>p\<in>set ps. index x < index p" by simp
  from insertSorted_append[OF r this] have "insertSorted x (t @ ps) = Inr (r @ ps)" .
  ultimately show ?case by simp
qed

lemma insertSorted_total:
  "\<forall>y\<in>set (x # r). stakeKeyDerivationPath y \<noteq> None \<Longrightarrow> \<exists>r'. insertSorted x r = Inr r'"
proof (induction r)
  case Nil
  show ?case by simp
next
  case (Cons y ys)
  from Cons.prems obtain px py where
    "stakeKeyDerivationPath x = Some px" "stakeKeyDerivationPath y = Some py" by auto
  then have "\<exists>c. compareAddresses x y = Inr c" by (simp add: compareAddresses_def)
  then obtain c where "compareAddresses x y = Inr c" ..
  moreover from Cons obtain t where "insertSorted x ys = Inr t" by auto
  ultimately show ?case by simp
qed

lemma sortAddresses_total:
  "\<forall>y\<in>set xs. stakeKeyDerivationPath y \<noteq> None \<Longrightarrow> \<exists>r. sortAddresses xs = Inr r"
proof (induction xs)
  case Nil
  show ?case by simp
next
  case (Cons x xs)
  then obtain t where t: "sortAddresses xs = Inr t" by auto
  from sortAddresses_sorted[OF t] have "set t = set xs" by (metis set_mset_mset)
  with Cons.prems have "\<forall>y\<in>set (x # t). stakeKeyDerivationPath y \<noteq> None" by simp
  from insertSorted_total[OF this] t show ?case by simp
qed

section \<open>The shape of a discovery run\<close>

lemma makeProgrammableTokenAddress_total:
  "payment_address core a \<Longrightarrow> \<exists>out. makeProgrammableTokenAddress core a n = Inr out"
  by (auto simp: payment_address_def makeProgrammableTokenAddress_def getPaymentCredential_def
        Let_def split: option.splits Address.splits CredentialType.splits)

lemma progTokenAddresses_from_total:
  "\<forall>x\<in>set addrs. payment_address core (address x)
   \<Longrightarrow> \<exists>progs. progTokenAddresses_from core lastIdx idx addrs = Inr progs"
proof (induction addrs arbitrary: idx)
  case Nil
  show ?case by simp
next
  case (Cons x rest)
  from Cons.prems have "payment_address core (address x)" by simp
  from makeProgrammableTokenAddress_total[OF this]
  obtain out where "makeProgrammableTokenAddress core (address x) (networkId x) = Inr out"
    by blast
  moreover from Cons obtain progs where
    "progTokenAddresses_from core lastIdx (idx + 1) rest = Inr progs" by auto
  ultimately show ?case by simp
qed

lemma discoveredAddresses_Some:
  assumes "discoveredAddresses p L a = Some addrs"
  shows "\<exists>ks kp. addrs = uniqBy (firstAddresses p a
                    @ concat (map (used_at a p stakeKeyArgs) [0..<ks])
                    @ concat (map (used_at a p paymentKeyArgs) [0..<kp])) address"
proof -
  from assms obtain stake pay where
    s: "discoverAddresses a p STAKE_KEY_INDEX_LOOKAHEAD stakeKeyArgs = Some stake"
    and y: "discoverAddresses a p L paymentKeyArgs = Some pay"
    and addrs: "addrs = uniqBy (firstAddresses p a @ stake @ pay) address"
    by (auto simp: discoveredAddresses_def split: option.splits)
  from discoverAddresses_Some[OF s] discoverAddresses_Some[OF y] addrs
  show ?thesis by blast
qed

lemma firstAddresses_Cons:
  "\<exists>more. firstAddresses p a = a \<lparr> path_index = 0, path_type = External \<rparr> 0 # more
          \<and> set more \<subseteq> {a \<lparr> path_index = 0, path_type = Internal \<rparr> 0}"
  by (auto simp: firstAddresses_def Let_def)

lemma candidates_derived:
  assumes "x \<in> set (firstAddresses p a
                    @ concat (map (used_at a p stakeKeyArgs) [0..<ks])
                    @ concat (map (used_at a p paymentKeyArgs) [0..<kp]))"
  shows "\<exists>q s. x = a q s"
proof -
  from assms consider "x \<in> set (firstAddresses p a)"
    | i where "x \<in> set (used_at a p stakeKeyArgs i)"
    | i where "x \<in> set (used_at a p paymentKeyArgs i)"
    by auto
  then show ?thesis
  proof cases
    case 1
    then show ?thesis by (auto simp: firstAddresses_def Let_def split: if_splits)
  next
    case 2
    from used_at_cases[OF this] show ?thesis by (auto simp: derived_at_def)
  next
    case 3
    from used_at_cases[OF this] show ?thesis by (auto simp: derived_at_def)
  qed
qed

lemma payment_pass_index:
  assumes "records_path a" "x \<in> set (used_at a p paymentKeyArgs i)"
  shows "index x = i + 1"
  using used_at_cases[OF assms(2)] assms(1)
  by (auto simp: derived_at_paymentKeyArgs records_path_def)

lemma stake_pass_index:
  assumes "records_path a" "x \<in> set (used_at a p stakeKeyArgs i)"
  shows "index x = 0"
  using used_at_cases[OF assms(2)] assms(1)
  by (auto simp: derived_at_stakeKeyArgs records_path_def)

lemma sorted_map_const: "\<forall>x\<in>set xs. g x = (c::nat) \<Longrightarrow> sorted (map g xs)"
  by (induction xs) auto

lemma payment_pass_sorted:
  assumes "records_path a"
  shows "sorted (map index (concat (map (used_at a p paymentKeyArgs) [0..<k])))"
proof (induction k)
  case 0
  show ?case by simp
next
  case (Suc k)
  define old where "old = concat (map (used_at a p paymentKeyArgs) [0..<k])"
  define new where "new = used_at a p paymentKeyArgs k"
  have n: "\<forall>x\<in>set new. index x = k + 1"
    unfolding new_def using payment_pass_index[OF assms] by blast
  have o: "\<forall>x\<in>set old. index x \<le> k"
    unfolding old_def using payment_pass_index[OF assms] by fastforce
  have "sorted (map index new)" using n by (rule sorted_map_const)
  moreover have "sorted (map index old)" using Suc by (simp add: old_def)
  moreover have "\<forall>x\<in>set old. \<forall>y\<in>set new. index x \<le> index y"
    using n o by fastforce
  ultimately have "sorted (map index (old @ new))" by (simp add: sorted_append)
  then show ?case by (simp add: old_def new_def)
qed

lemma candidates_sorted:
  assumes "records_path a"
  shows "sorted (map index (firstAddresses p a
                    @ concat (map (used_at a p stakeKeyArgs) [0..<ks])
                    @ concat (map (used_at a p paymentKeyArgs) [0..<kp])))"
proof -
  define low where "low = firstAddresses p a @ concat (map (used_at a p stakeKeyArgs) [0..<ks])"
  define pay where "pay = concat (map (used_at a p paymentKeyArgs) [0..<kp])"
  have f: "\<forall>x\<in>set (firstAddresses p a). index x = 0"
    using assms by (auto simp: firstAddresses_def Let_def records_path_def split: if_splits)
  have s: "\<forall>x\<in>set (concat (map (used_at a p stakeKeyArgs) [0..<ks])). index x = 0"
    using stake_pass_index[OF assms] by fastforce
  from f s have l: "\<forall>x\<in>set low. index x = 0" by (auto simp: low_def)
  then have "sorted (map index low)" by (rule sorted_map_const)
  moreover have "sorted (map index pay)"
    unfolding pay_def by (rule payment_pass_sorted[OF assms])
  moreover from l have "\<forall>x\<in>set low. \<forall>y\<in>set pay. index x \<le> index y" by simp
  ultimately have "sorted (map index (low @ pay))" by (simp add: sorted_append)
  then show ?thesis by (simp add: low_def pay_def)
qed

lemma sorted_le_last: "sorted xs \<Longrightarrow> (x::nat) \<in> set xs \<Longrightarrow> x \<le> last xs"
  by (induction xs) auto

lemma discovered_shape:
  assumes d: "discoveredAddresses p L a = Some addrs"
  shows "\<exists>rest. addrs = a \<lparr> path_index = 0, path_type = External \<rparr> 0 # rest"
    and "\<forall>x\<in>set addrs. \<exists>q s. x = a q s"
    and "records_path a \<Longrightarrow> sorted (map index addrs)"
    and "records_path a \<Longrightarrow> \<forall>x\<in>set addrs. index x \<le> index (last addrs)"
    and "records_path a \<Longrightarrow> \<forall>x\<in>set addrs. stakeKeyDerivationPath x \<noteq> None"
proof -
  from discoveredAddresses_Some[OF d] obtain ks kp where
    addrs: "addrs = uniqBy (firstAddresses p a
                    @ concat (map (used_at a p stakeKeyArgs) [0..<ks])
                    @ concat (map (used_at a p paymentKeyArgs) [0..<kp])) address"
    by blast
  define cands where "cands = firstAddresses p a
                    @ concat (map (used_at a p stakeKeyArgs) [0..<ks])
                    @ concat (map (used_at a p paymentKeyArgs) [0..<kp])"
  from firstAddresses_Cons[of p a] obtain more where
    "firstAddresses p a = a \<lparr> path_index = 0, path_type = External \<rparr> 0 # more" by blast
  then show hd: "\<exists>rest. addrs = a \<lparr> path_index = 0, path_type = External \<rparr> 0 # rest"
    unfolding addrs by (simp add: uniqBy_Cons)
  have sub: "set addrs \<subseteq> set cands"
    unfolding addrs cands_def uniqBy_def by (rule uniqBy_seen_subset)
  show der: "\<forall>x\<in>set addrs. \<exists>q s. x = a q s"
    using sub candidates_derived[of _ p a ks kp] unfolding cands_def by blast
  show srt: "sorted (map index addrs)" if "records_path a"
    unfolding addrs uniqBy_def
    by (rule uniqBy_seen_sorted) (rule candidates_sorted[OF that])
  show "\<forall>x\<in>set addrs. index x \<le> index (last addrs)" if rp: "records_path a"
  proof
    fix x assume "x \<in> set addrs"
    then have "index x \<in> set (map index addrs)" by simp
    from sorted_le_last[OF srt[OF rp] this] hd show "index x \<le> index (last addrs)"
      by (auto simp: last_map)
  qed
  show "\<forall>x\<in>set addrs. stakeKeyDerivationPath x \<noteq> None" if "records_path a"
    using der that by (auto simp: records_path_def)
qed

lemma prog_shape:
  assumes pg: "progTokenAddresses core addrs = Inr progs"
  shows "length progs = length addrs"
    and "\<forall>i<length addrs. index (progs ! i) = index (last addrs) + (i + 1)"
    and "sorted_wrt ordered_pair progs"
    and "\<forall>x\<in>set progs. index (last addrs) < index x"
proof -
  from pg have "progTokenAddresses_from core (index (last addrs)) 0 addrs = Inr progs"
    by (simp add: progTokenAddresses_def split: list.splits)
  from progTokenAddresses_from_nth[OF this]
  show len: "length progs = length addrs"
    and idx: "\<forall>i<length addrs. index (progs ! i) = index (last addrs) + (i + 1)"
    by auto
  show "sorted_wrt ordered_pair progs"
    unfolding sorted_wrt_iff_nth_less using idx len
    by (auto intro!: ordered_pair_index)
  show "\<forall>x\<in>set progs. index (last addrs) < index x"
    using idx len by (auto simp: in_set_conv_nth)
qed

lemma ordered_canonical:
  "records_path a \<Longrightarrow> ordered_pair (a \<lparr> path_index = 0, path_type = External \<rparr> 0) (a q s)"
  by (auto simp: records_path_def ordered_pair_def)

lemma discover_shape:
  assumes rp: "records_path a"
    and d: "discoveredAddresses p L a = Some addrs"
    and pg: "progTokenAddresses core addrs = Inr progs"
  shows "\<exists>t. sortAddresses addrs = Inr (a \<lparr> path_index = 0, path_type = External \<rparr> 0 # t)
            \<and> discover core p L a
                = Some (Inr (a \<lparr> path_index = 0, path_type = External \<rparr> 0 # t @ progs))"
proof -
  let ?c = "a \<lparr> path_index = 0, path_type = External \<rparr> 0"
  from discovered_shape(1)[OF d] obtain rest where addrs: "addrs = ?c # rest" by blast
  from discovered_shape(5)[OF d rp] addrs
  have "\<forall>x\<in>set rest. stakeKeyDerivationPath x \<noteq> None" by simp
  from sortAddresses_total[OF this] obtain t where t: "sortAddresses rest = Inr t" by blast
  from sortAddresses_sorted[OF t] have "set t = set rest" by (metis set_mset_mset)
  with discovered_shape(2)[OF d] addrs have "\<forall>y\<in>set t. \<exists>q s. y = a q s" by simp
  with ordered_canonical[OF rp] have "\<forall>y\<in>set t. ordered_pair ?c y" by metis
  then have "t = [] \<or> ordered_pair ?c (hd t)" by (cases t) auto
  from insertSorted_front[OF this] t addrs
  have sorted_addrs: "sortAddresses addrs = Inr (?c # t)" by simp
  have "\<forall>x\<in>set addrs. \<forall>y\<in>set progs. index x < index y"
    using discovered_shape(4)[OF d rp] prog_shape(4)[OF pg] by fastforce
  from sortAddresses_append[OF sorted_addrs prog_shape(3)[OF pg] this]
  have "sortAddresses (addrs @ progs) = Inr ((?c # t) @ progs)" .
  with d pg have "discover core p L a = Some (Inr (?c # t @ progs))"
    by (simp add: discover_def)
  with sorted_addrs show ?thesis by blast
qed

text \<open>
  A run returns a list when the account records the path of each address, every derived
  address decodes to a base or an enterprise address, and each pass meets enough
  consecutive unused indices to stop.
\<close>

lemma discover_returns:
  assumes rp: "records_path account"
    and dec: "\<forall>q s. payment_address core (address (account q s))"
    and stake: "\<exists>n. \<forall>j\<le>5. \<not> position_used account provider stakeKeyArgs (n + j)"
    and pay: "L < 0 \<or> (\<exists>n. \<forall>j\<le>nat L. \<not> position_used account provider paymentKeyArgs (n + j))"
  shows "\<exists>res. discover core provider L account = Some (Inr res)"
proof -
  from stake have "STAKE_KEY_INDEX_LOOKAHEAD < 0
      \<or> (\<exists>n. \<forall>j\<le>nat STAKE_KEY_INDEX_LOOKAHEAD.
             \<not> position_used account provider stakeKeyArgs (n + j))"
    by (simp add: STAKE_KEY_INDEX_LOOKAHEAD_def)
  from scan_loop_returns[OF this] scan_loop_returns[OF pay]
  obtain addrs where d: "discoveredAddresses provider L account = Some addrs"
    by (auto simp: discoveredAddresses_def discoverAddresses_def)
  from discovered_shape(1,2)[OF d] dec
  have ne: "addrs \<noteq> []" and "\<forall>x\<in>set addrs. payment_address core (address x)"
    by auto
  from progTokenAddresses_from_total[OF this(2)]
  obtain progs where "progTokenAddresses_from core (index (last addrs)) 0 addrs = Inr progs"
    by blast
  with ne have pg: "progTokenAddresses core addrs = Inr progs"
    by (cases addrs) (simp_all add: progTokenAddresses_def)
  from discover_shape[OF rp d pg] show ?thesis by blast
qed

section \<open>C2: the indices of the programmable entries\<close>

text \<open>
  Claim C2. Let the account record the payment index and the stake index in the
  addresses it derives. In a run whose deduplicated list is \<open>addrs\<close> and whose
  programmable entries are \<open>progs\<close>: there is exactly one programmable entry per address
  of \<open>addrs\<close>; the entry at (0-based) position \<open>i\<close> is built from the address at
  position \<open>i\<close> and has index \<open>Max (indices of addrs) + (i + 1)\<close>; every programmable
  index is strictly above every index of \<open>addrs\<close>; and the run returns the sorted
  \<open>addrs\<close> followed by \<open>progs\<close> in their order.
\<close>

theorem programmable_index_range:
  assumes rp: "records_path account"
    and d: "discoveredAddresses provider lookAheadCount account = Some addrs"
    and pg: "progTokenAddresses core addrs = Inr progs"
  shows "length progs = length addrs
       \<and> (\<forall>i<length addrs.
             index (progs ! i) = Max (index ` set addrs) + (i + 1)
           \<and> makeProgrammableTokenAddress core (address (addrs ! i)) (networkId (addrs ! i))
               = Inr (address (progs ! i)))
       \<and> (\<forall>a\<in>set addrs. \<forall>p\<in>set progs. index a < index p)
       \<and> (\<exists>organic. sortAddresses addrs = Inr organic
             \<and> discover core provider lookAheadCount account = Some (Inr (organic @ progs)))"
proof -
  from discovered_shape(1)[OF d] have ne: "addrs \<noteq> []" by auto
  have le: "\<forall>x\<in>set addrs. index x \<le> index (last addrs)"
    by (rule discovered_shape(4)[OF d rp])
  have mx: "Max (index ` set addrs) = index (last addrs)"
  proof (rule Max_eqI)
    show "finite (index ` set addrs)" by simp
    show "\<And>y. y \<in> index ` set addrs \<Longrightarrow> y \<le> index (last addrs)" using le by auto
    show "index (last addrs) \<in> index ` set addrs" using ne by simp
  qed
  from pg have "progTokenAddresses_from core (index (last addrs)) 0 addrs = Inr progs"
    by (simp add: progTokenAddresses_def split: list.splits)
  from progTokenAddresses_from_nth[OF this]
  have nth: "\<forall>i<length addrs.
             makeProgrammableTokenAddress core (address (addrs ! i)) (networkId (addrs ! i))
               = Inr (address (progs ! i))"
    by fastforce
  have high: "\<forall>a\<in>set addrs. \<forall>p\<in>set progs. index a < index p"
    using le prog_shape(4)[OF pg] by fastforce
  from discover_shape[OF rp d pg]
  have "\<exists>organic. sortAddresses addrs = Inr organic
             \<and> discover core provider lookAheadCount account = Some (Inr (organic @ progs))"
    by auto
  with prog_shape(1,2)[OF pg] nth high show ?thesis unfolding mx by simp
qed

theorem programmable_index_range_witness:
  "discoveredAddresses (sample_provider [''b0kxi:kt'']) 0 sample_account =
     Some [sample_account \<lparr> path_index = 0, path_type = External \<rparr> 0,
           sample_account \<lparr> path_index = 1, path_type = External \<rparr> 0]
   \<and> progTokenAddresses sample_core
        [sample_account \<lparr> path_index = 0, path_type = External \<rparr> 0,
         sample_account \<lparr> path_index = 1, path_type = External \<rparr> 0] =
       Inr [(sample_account \<lparr> path_index = 0, path_type = External \<rparr> 0)
              \<lparr> index := 2, address := ''b0slogic:kx'' \<rparr>,
            (sample_account \<lparr> path_index = 1, path_type = External \<rparr> 0)
              \<lparr> index := 3, address := ''b0slogic:kxi'' \<rparr>]
   \<and> Max (index ` set [sample_account \<lparr> path_index = 0, path_type = External \<rparr> 0,
                         sample_account \<lparr> path_index = 1, path_type = External \<rparr> 0]) + (1 + 1)
       = 3"
proof -
  let ?addrs = "[sample_account \<lparr> path_index = 0, path_type = External \<rparr> 0,
                 sample_account \<lparr> path_index = 1, path_type = External \<rparr> 0]"
  let ?progs = "[(sample_account \<lparr> path_index = 0, path_type = External \<rparr> 0)
                   \<lparr> index := 2, address := ''b0slogic:kx'' \<rparr>,
                 (sample_account \<lparr> path_index = 1, path_type = External \<rparr> 0)
                   \<lparr> index := 3, address := ''b0slogic:kxi'' \<rparr>]"
  have d: "discoveredAddresses (sample_provider [''b0kxi:kt'']) 0 sample_account = Some ?addrs"
    by code_simp
  have pg: "progTokenAddresses sample_core ?addrs = Inr ?progs"
    by code_simp
  from programmable_index_range[OF records_path_sample d pg]
  have all: "\<forall>i<length ?addrs. index (?progs ! i) = Max (index ` set ?addrs) + (i + 1)"
    by blast
  have "1 < length ?addrs" by simp
  with all have "index (?progs ! 1) = Max (index ` set ?addrs) + (1 + 1)"
    by blast
  moreover have "index (?progs ! 1) = 3" by simp
  ultimately have "Max (index ` set ?addrs) + (1 + 1) = 3" by (rule trans[OF sym])
  with d pg show ?thesis by blast
qed

section \<open>C5: the order of the result and its first entry\<close>

text \<open>
  Claim C5. For every account and provider, the list a run returns is in ascending
  order of the pair \<^verbatim>\<open>(index, stakeKeyDerivationPath.index)\<close>, and the address derived
  at payment index 0, External, stake index 0 is in it, whatever the provider says about
  that address. When the account records the payment index and the stake index in the
  addresses it derives, that address is the first element of the list.
\<close>

theorem canonical_address_first:
  assumes run: "discover core provider lookAheadCount account = Some (Inr res)"
  shows "sorted_wrt ordered_pair res
       \<and> account \<lparr> path_index = 0, path_type = External \<rparr> 0 \<in> set res
       \<and> (records_path account
            \<longrightarrow> res \<noteq> [] \<and> hd res = account \<lparr> path_index = 0, path_type = External \<rparr> 0)"
proof -
  from run obtain addrs progs where
    d: "discoveredAddresses provider lookAheadCount account = Some addrs"
    and pg: "progTokenAddresses core addrs = Inr progs"
    and s: "sortAddresses (addrs @ progs) = Inr res"
    by (auto simp: discover_def split: option.splits sum.splits)
  from sortAddresses_sorted[OF s] have srt: "sorted_wrt ordered_pair res"
    and "set res = set (addrs @ progs)"
    by (blast, metis set_mset_mset)
  with discovered_shape(1)[OF d]
  have mem: "account \<lparr> path_index = 0, path_type = External \<rparr> 0 \<in> set res" by auto
  have "res \<noteq> [] \<and> hd res = account \<lparr> path_index = 0, path_type = External \<rparr> 0"
    if rp: "records_path account"
  proof -
    from discover_shape[OF rp d pg] run obtain t where
      "res = account \<lparr> path_index = 0, path_type = External \<rparr> 0 # t @ progs" by auto
    then show ?thesis by simp
  qed
  with srt mem show ?thesis by blast
qed

theorem canonical_address_first_witness:
  "discover sample_core (sample_provider [''b0kxi:kt'']) 0 sample_reversed_account =
     Some (Inr [sample_reversed_account \<lparr> path_index = 1, path_type = External \<rparr> 0,
                sample_reversed_account \<lparr> path_index = 0, path_type = External \<rparr> 0,
                (sample_reversed_account \<lparr> path_index = 0, path_type = External \<rparr> 0)
                  \<lparr> index := 5, address := ''b0slogic:kx'' \<rparr>,
                (sample_reversed_account \<lparr> path_index = 1, path_type = External \<rparr> 0)
                  \<lparr> index := 6, address := ''b0slogic:kxi'' \<rparr>])
   \<and> discoveredAddresses (sample_provider [''b0kxi:kt'']) 0 sample_reversed_account =
     Some [sample_reversed_account \<lparr> path_index = 0, path_type = External \<rparr> 0,
           sample_reversed_account \<lparr> path_index = 1, path_type = External \<rparr> 0]
   \<and> sorted_wrt ordered_pair
        [sample_reversed_account \<lparr> path_index = 1, path_type = External \<rparr> 0,
         sample_reversed_account \<lparr> path_index = 0, path_type = External \<rparr> 0,
         (sample_reversed_account \<lparr> path_index = 0, path_type = External \<rparr> 0)
           \<lparr> index := 5, address := ''b0slogic:kx'' \<rparr>,
         (sample_reversed_account \<lparr> path_index = 1, path_type = External \<rparr> 0)
           \<lparr> index := 6, address := ''b0slogic:kxi'' \<rparr>]
   \<and> discover sample_core (sample_provider [''b0kxi:kt'']) 0 sample_account =
     Some (Inr [sample_account \<lparr> path_index = 0, path_type = External \<rparr> 0,
                sample_account \<lparr> path_index = 1, path_type = External \<rparr> 0,
                (sample_account \<lparr> path_index = 0, path_type = External \<rparr> 0)
                  \<lparr> index := 2, address := ''b0slogic:kx'' \<rparr>,
                (sample_account \<lparr> path_index = 1, path_type = External \<rparr> 0)
                  \<lparr> index := 3, address := ''b0slogic:kxi'' \<rparr>])
   \<and> \<not> addressHasTx (sample_account \<lparr> path_index = 0, path_type = External \<rparr> 0)
         (sample_provider [''b0kxi:kt''])
   \<and> hd [sample_account \<lparr> path_index = 0, path_type = External \<rparr> 0,
          sample_account \<lparr> path_index = 1, path_type = External \<rparr> 0,
          (sample_account \<lparr> path_index = 0, path_type = External \<rparr> 0)
            \<lparr> index := 2, address := ''b0slogic:kx'' \<rparr>,
          (sample_account \<lparr> path_index = 1, path_type = External \<rparr> 0)
            \<lparr> index := 3, address := ''b0slogic:kxi'' \<rparr>]
       = sample_account \<lparr> path_index = 0, path_type = External \<rparr> 0"
proof -
  let ?p = "sample_provider [''b0kxi:kt'']"
  let ?rev = "[sample_reversed_account \<lparr> path_index = 1, path_type = External \<rparr> 0,
         sample_reversed_account \<lparr> path_index = 0, path_type = External \<rparr> 0,
         (sample_reversed_account \<lparr> path_index = 0, path_type = External \<rparr> 0)
           \<lparr> index := 5, address := ''b0slogic:kx'' \<rparr>,
         (sample_reversed_account \<lparr> path_index = 1, path_type = External \<rparr> 0)
           \<lparr> index := 6, address := ''b0slogic:kxi'' \<rparr>]"
  let ?res = "[sample_account \<lparr> path_index = 0, path_type = External \<rparr> 0,
         sample_account \<lparr> path_index = 1, path_type = External \<rparr> 0,
         (sample_account \<lparr> path_index = 0, path_type = External \<rparr> 0)
           \<lparr> index := 2, address := ''b0slogic:kx'' \<rparr>,
         (sample_account \<lparr> path_index = 1, path_type = External \<rparr> 0)
           \<lparr> index := 3, address := ''b0slogic:kxi'' \<rparr>]"
  have run_rev: "discover sample_core ?p 0 sample_reversed_account = Some (Inr ?rev)"
    by code_simp
  have before: "discoveredAddresses ?p 0 sample_reversed_account =
     Some [sample_reversed_account \<lparr> path_index = 0, path_type = External \<rparr> 0,
           sample_reversed_account \<lparr> path_index = 1, path_type = External \<rparr> 0]"
    by code_simp
  have run: "discover sample_core ?p 0 sample_account = Some (Inr ?res)"
    by code_simp
  have unused: "\<not> addressHasTx (sample_account \<lparr> path_index = 0, path_type = External \<rparr> 0) ?p"
    by (simp add: sample_hasTx sample_defs)
  from canonical_address_first[OF run_rev]
  have ordered: "sorted_wrt ordered_pair ?rev" by blast
  from canonical_address_first[OF run] records_path_sample
  have first: "hd ?res = sample_account \<lparr> path_index = 0, path_type = External \<rparr> 0" by blast
  from run_rev before ordered run unused first show ?thesis by blast
qed

section \<open>C4: uniqueness of the encoded addresses\<close>

text \<open>
  Claim C4 says that no two entries of the returned list have the same encoded
  address, the programmable entries included. That fails: a programmable address
  depends on the payment credential only, so two discovered addresses with the same
  payment key and different stake keys give one programmable address twice. On the
  sample account, with history at payment index 0, stake index 1, the returned list
  has four entries and the last two have the same address.
\<close>

theorem full_list_unique_counterexample:
  "discover sample_core (sample_provider [''b0kx:kti'']) 0 sample_account =
     Some (Inr [sample_account \<lparr> path_index = 0, path_type = External \<rparr> 0,
                sample_account \<lparr> path_index = 0, path_type = External \<rparr> 1,
                (sample_account \<lparr> path_index = 0, path_type = External \<rparr> 0)
                  \<lparr> index := 1, address := ''b0slogic:kx'' \<rparr>,
                (sample_account \<lparr> path_index = 0, path_type = External \<rparr> 1)
                  \<lparr> index := 2, address := ''b0slogic:kx'' \<rparr>])
   \<and> \<not> distinct (map address
          [sample_account \<lparr> path_index = 0, path_type = External \<rparr> 0,
           sample_account \<lparr> path_index = 0, path_type = External \<rparr> 1,
           (sample_account \<lparr> path_index = 0, path_type = External \<rparr> 0)
             \<lparr> index := 1, address := ''b0slogic:kx'' \<rparr>,
           (sample_account \<lparr> path_index = 0, path_type = External \<rparr> 1)
             \<lparr> index := 2, address := ''b0slogic:kx'' \<rparr>])"
proof
  show "discover sample_core (sample_provider [''b0kx:kti'']) 0 sample_account =
     Some (Inr [sample_account \<lparr> path_index = 0, path_type = External \<rparr> 0,
                sample_account \<lparr> path_index = 0, path_type = External \<rparr> 1,
                (sample_account \<lparr> path_index = 0, path_type = External \<rparr> 0)
                  \<lparr> index := 1, address := ''b0slogic:kx'' \<rparr>,
                (sample_account \<lparr> path_index = 0, path_type = External \<rparr> 1)
                  \<lparr> index := 2, address := ''b0slogic:kx'' \<rparr>])"
    by code_simp
  show "\<not> distinct (map address
          [sample_account \<lparr> path_index = 0, path_type = External \<rparr> 0,
           sample_account \<lparr> path_index = 0, path_type = External \<rparr> 1,
           (sample_account \<lparr> path_index = 0, path_type = External \<rparr> 0)
             \<lparr> index := 1, address := ''b0slogic:kx'' \<rparr>,
           (sample_account \<lparr> path_index = 0, path_type = External \<rparr> 1)
             \<lparr> index := 2, address := ''b0slogic:kx'' \<rparr>])"
    by simp
qed

text \<open>
  Claim C4 as amended. In a run that returns a list, the first addresses and the
  results of the stake-key and payment-key passes are deduplicated by encoded address,
  in order and keeping the first occurrence, so the deduplicated list has no two
  entries with the same encoded address; the returned list consists of that list and
  one programmable entry per entry of it. Nothing is said about the addresses of the
  programmable entries.
\<close>

theorem organic_addresses_unique:
  assumes run: "discover core provider lookAheadCount account = Some (Inr res)"
  shows "\<exists>stake pay addrs progs.
           discoverAddresses account provider STAKE_KEY_INDEX_LOOKAHEAD stakeKeyArgs = Some stake
         \<and> discoverAddresses account provider lookAheadCount paymentKeyArgs = Some pay
         \<and> addrs = uniqBy (firstAddresses provider account @ stake @ pay) address
         \<and> distinct (map address addrs)
         \<and> address ` set addrs = address ` set (firstAddresses provider account @ stake @ pay)
         \<and> subseq addrs (firstAddresses provider account @ stake @ pay)
         \<and> (\<forall>a\<in>set addrs.
               find (\<lambda>b. address b = address a) (firstAddresses provider account @ stake @ pay)
                 = Some a)
         \<and> progTokenAddresses core addrs = Inr progs
         \<and> length progs = length addrs
         \<and> mset res = mset addrs + mset progs"
proof -
  from run obtain addrs progs where
    d: "discoveredAddresses provider lookAheadCount account = Some addrs"
    and pg: "progTokenAddresses core addrs = Inr progs"
    and s: "sortAddresses (addrs @ progs) = Inr res"
    by (auto simp: discover_def split: option.splits sum.splits)
  from d obtain stake pay where
    st: "discoverAddresses account provider STAKE_KEY_INDEX_LOOKAHEAD stakeKeyArgs = Some stake"
    and py: "discoverAddresses account provider lookAheadCount paymentKeyArgs = Some pay"
    and addrs: "addrs = uniqBy (firstAddresses provider account @ stake @ pay) address"
    by (auto simp: discoveredAddresses_def split: option.splits)
  let ?all = "firstAddresses provider account @ stake @ pay"
  have "distinct (map address addrs)"
    unfolding addrs uniqBy_def by (rule uniqBy_seen_distinct)
  moreover have "address ` set addrs = address ` set ?all"
    unfolding addrs uniqBy_def by (simp add: uniqBy_seen_keys)
  moreover have "subseq addrs ?all"
    unfolding addrs uniqBy_def by (rule uniqBy_seen_subseq)
  moreover have "\<forall>a\<in>set addrs. find (\<lambda>b. address b = address a) ?all = Some a"
    unfolding addrs uniqBy_def using uniqBy_seen_first by fast
  moreover have "mset res = mset addrs + mset progs"
    using sortAddresses_sorted[OF s] by simp
  ultimately show ?thesis using st py addrs pg prog_shape(1)[OF pg] by blast
qed

theorem organic_addresses_unique_witness:
  "discover sample_core (sample_provider [''b0kx:kti'']) 0 sample_account =
     Some (Inr [sample_account \<lparr> path_index = 0, path_type = External \<rparr> 0,
                sample_account \<lparr> path_index = 0, path_type = External \<rparr> 1,
                (sample_account \<lparr> path_index = 0, path_type = External \<rparr> 0)
                  \<lparr> index := 1, address := ''b0slogic:kx'' \<rparr>,
                (sample_account \<lparr> path_index = 0, path_type = External \<rparr> 1)
                  \<lparr> index := 2, address := ''b0slogic:kx'' \<rparr>])
   \<and> distinct (map address
        (uniqBy (firstAddresses (sample_provider [''b0kx:kti'']) sample_account
                 @ [sample_account \<lparr> path_index = 0, path_type = External \<rparr> 1] @ [])
           address))"
proof -
  let ?p = "sample_provider [''b0kx:kti'']"
  have run: "discover sample_core ?p 0 sample_account =
     Some (Inr [sample_account \<lparr> path_index = 0, path_type = External \<rparr> 0,
                sample_account \<lparr> path_index = 0, path_type = External \<rparr> 1,
                (sample_account \<lparr> path_index = 0, path_type = External \<rparr> 0)
                  \<lparr> index := 1, address := ''b0slogic:kx'' \<rparr>,
                (sample_account \<lparr> path_index = 0, path_type = External \<rparr> 1)
                  \<lparr> index := 2, address := ''b0slogic:kx'' \<rparr>])"
    by code_simp
  have stake: "discoverAddresses sample_account ?p STAKE_KEY_INDEX_LOOKAHEAD stakeKeyArgs =
      Some [sample_account \<lparr> path_index = 0, path_type = External \<rparr> 1]"
    by code_simp
  have pay: "discoverAddresses sample_account ?p 0 paymentKeyArgs = Some []"
    by code_simp
  from organic_addresses_unique[OF run] stake pay
  have "distinct (map address
        (uniqBy (firstAddresses ?p sample_account
                 @ [sample_account \<lparr> path_index = 0, path_type = External \<rparr> 1] @ [])
           address))"
    by auto
  with run show ?thesis by blast
qed

section \<open>C9: a run without usage\<close>

text \<open>
  Claim C9. Let \<open>lookAheadCount = 0\<close>, let the account record the payment and stake
  index in the addresses it derives, let the two addresses at payment index 0, stake
  index 0 decode to base or enterprise addresses, and let the provider have no history
  for any address at another payment or stake index (the case of no history at all is
  included). Then \<^verbatim>\<open>discover\<close> returns the External address at index 0, the Internal
  one when it has history, and their programmable entries with indices 1 and 2: two or
  four entries.
\<close>

theorem no_usage_discovery:
  assumes rp: "records_path account"
    and unused: "\<forall>p s. addressHasTx (account p s) provider \<longrightarrow> path_index p = 0 \<and> s = 0"
    and pe: "payment_address core (address (account \<lparr> path_index = 0, path_type = External \<rparr> 0))"
    and pi: "payment_address core (address (account \<lparr> path_index = 0, path_type = Internal \<rparr> 0))"
  shows "\<exists>programmableExternal programmableInternal res.
           makeProgrammableTokenAddress core
               (address (account \<lparr> path_index = 0, path_type = External \<rparr> 0))
               (networkId (account \<lparr> path_index = 0, path_type = External \<rparr> 0))
             = Inr programmableExternal
         \<and> makeProgrammableTokenAddress core
               (address (account \<lparr> path_index = 0, path_type = Internal \<rparr> 0))
               (networkId (account \<lparr> path_index = 0, path_type = Internal \<rparr> 0))
             = Inr programmableInternal
         \<and> discover core provider 0 account = Some (Inr res)
         \<and> res =
             (if addressHasTx (account \<lparr> path_index = 0, path_type = Internal \<rparr> 0) provider
                 \<and> address (account \<lparr> path_index = 0, path_type = Internal \<rparr> 0)
                     \<noteq> address (account \<lparr> path_index = 0, path_type = External \<rparr> 0)
              then [account \<lparr> path_index = 0, path_type = External \<rparr> 0,
                    account \<lparr> path_index = 0, path_type = Internal \<rparr> 0,
                    (account \<lparr> path_index = 0, path_type = External \<rparr> 0)
                      \<lparr> index := 1, address := programmableExternal \<rparr>,
                    (account \<lparr> path_index = 0, path_type = Internal \<rparr> 0)
                      \<lparr> index := 2, address := programmableInternal \<rparr>]
              else [account \<lparr> path_index = 0, path_type = External \<rparr> 0,
                    (account \<lparr> path_index = 0, path_type = External \<rparr> 0)
                      \<lparr> index := 1, address := programmableExternal \<rparr>])
         \<and> (length res = 2 \<or> length res = 4)"
proof -
  let ?e = "account \<lparr> path_index = 0, path_type = External \<rparr> 0"
  let ?i = "account \<lparr> path_index = 0, path_type = Internal \<rparr> 0"
  from makeProgrammableTokenAddress_total[OF pe] obtain oe where oe: "makeProgrammableTokenAddress core (address ?e) (networkId ?e) = Inr oe"
    by blast
  from makeProgrammableTokenAddress_total[OF pi] obtain oi where oi: "makeProgrammableTokenAddress core (address ?i) (networkId ?i) = Inr oi"
    by blast
  have no_stake: "\<not> position_used account provider stakeKeyArgs j" for j
    using unused by (fastforce simp: position_used_def derived_at_stakeKeyArgs)
  have no_pay: "\<not> position_used account provider paymentKeyArgs j" for j
    using unused by (fastforce simp: position_used_def derived_at_paymentKeyArgs)
  have "scan_loop account provider STAKE_KEY_INDEX_LOOKAHEAD stakeKeyArgs scan_init =
          Some \<lparr> currentGap = nat STAKE_KEY_INDEX_LOOKAHEAD + 1,
                 currentIndex = 0 + nat STAKE_KEY_INDEX_LOOKAHEAD + 1,
                 addresses = concat (map (used_at account provider stakeKeyArgs) [0..<0]),
                 queried = concat (map (queried_at account stakeKeyArgs)
                                     [0..<0 + nat STAKE_KEY_INDEX_LOOKAHEAD + 1]) \<rparr>"
    by (rule scan_loop_window(1)) (simp_all add: STAKE_KEY_INDEX_LOOKAHEAD_def no_stake)
  then have stake: "discoverAddresses account provider STAKE_KEY_INDEX_LOOKAHEAD stakeKeyArgs = Some []"
    by (simp add: discoverAddresses_def)
  have "scan_loop account provider 0 paymentKeyArgs scan_init =
          Some \<lparr> currentGap = nat 0 + 1, currentIndex = 0 + nat 0 + 1,
                 addresses = concat (map (used_at account provider paymentKeyArgs) [0..<0]),
                 queried = concat (map (queried_at account paymentKeyArgs) [0..<0 + nat 0 + 1]) \<rparr>"
    by (rule scan_loop_window(1)) (simp_all add: no_pay)
  then have pay: "discoverAddresses account provider 0 paymentKeyArgs = Some []"
    by (simp add: discoverAddresses_def)
  have d: "discoveredAddresses provider 0 account =
             Some (if addressHasTx ?i provider \<and> address ?i \<noteq> address ?e then [?e, ?i] else [?e])"
    by (simp add: discoveredAddresses_def stake pay firstAddresses_def Let_def uniqBy_def)
  from rp have idx: "index ?e = 0" "index ?i = 0"
    and stk: "stakeKeyDerivationPath ?e = Some \<lparr> key_index = 0 \<rparr>"
      "stakeKeyDerivationPath ?i = Some \<lparr> key_index = 0 \<rparr>"
    by (simp_all add: records_path_def)
  show ?thesis
  proof (cases "addressHasTx ?i provider \<and> address ?i \<noteq> address ?e")
    case True
    have pg: "progTokenAddresses core [?e, ?i] =
                Inr [?e\<lparr> index := 1, address := oe \<rparr>, ?i\<lparr> index := 2, address := oi \<rparr>]"
      by (simp add: progTokenAddresses_def oe oi idx)
    have "sorted_wrt ordered_pair
            [?e, ?i, ?e\<lparr> index := 1, address := oe \<rparr>, ?i\<lparr> index := 2, address := oi \<rparr>]"
      by (simp add: ordered_pair_def idx stk)
    from sortAddresses_sorted_id[OF this] d pg True
    have "discover core provider 0 account =
            Some (Inr [?e, ?i, ?e\<lparr> index := 1, address := oe \<rparr>,
                       ?i\<lparr> index := 2, address := oi \<rparr>])"
      by (simp add: discover_def)
    with oe oi True show ?thesis by simp
  next
    case False
    have pg: "progTokenAddresses core [?e] = Inr [?e\<lparr> index := 1, address := oe \<rparr>]"
      by (simp add: progTokenAddresses_def oe idx)
    have "sorted_wrt ordered_pair [?e, ?e\<lparr> index := 1, address := oe \<rparr>]"
      by (simp add: ordered_pair_def idx stk)
    from sortAddresses_sorted_id[OF this] d pg False
    have "discover core provider 0 account =
            Some (Inr [?e, ?e\<lparr> index := 1, address := oe \<rparr>])"
      by (simp add: discover_def)
    with oe oi False show ?thesis by simp
  qed
qed

theorem no_usage_discovery_witness:
  "discover sample_core (sample_provider [''b0kn:kt'']) 0 sample_account =
     Some (Inr [sample_account \<lparr> path_index = 0, path_type = External \<rparr> 0,
                sample_account \<lparr> path_index = 0, path_type = Internal \<rparr> 0,
                (sample_account \<lparr> path_index = 0, path_type = External \<rparr> 0)
                  \<lparr> index := 1, address := ''b0slogic:kx'' \<rparr>,
                (sample_account \<lparr> path_index = 0, path_type = Internal \<rparr> 0)
                  \<lparr> index := 2, address := ''b0slogic:kn'' \<rparr>])
   \<and> discover sample_core (sample_provider []) 0 sample_account =
     Some (Inr [sample_account \<lparr> path_index = 0, path_type = External \<rparr> 0,
                (sample_account \<lparr> path_index = 0, path_type = External \<rparr> 0)
                  \<lparr> index := 1, address := ''b0slogic:kx'' \<rparr>])"
proof -
  have u1: "\<forall>p s. addressHasTx (sample_account p s) (sample_provider [''b0kn:kt''])
               \<longrightarrow> path_index p = 0 \<and> s = 0"
    by (auto simp: sample_hasTx sample_defs split: AddressType.splits
          dest: sample_canonical_text)
  have u0: "\<forall>p s. addressHasTx (sample_account p s) (sample_provider [])
               \<longrightarrow> path_index p = 0 \<and> s = 0"
    by (simp add: sample_hasTx)
  have pe: "makeProgrammableTokenAddress sample_core
               (address (sample_account \<lparr> path_index = 0, path_type = External \<rparr> 0))
               (networkId (sample_account \<lparr> path_index = 0, path_type = External \<rparr> 0))
             = Inr ''b0slogic:kx''"
    by code_simp
  have pi: "makeProgrammableTokenAddress sample_core
               (address (sample_account \<lparr> path_index = 0, path_type = Internal \<rparr> 0))
               (networkId (sample_account \<lparr> path_index = 0, path_type = Internal \<rparr> 0))
             = Inr ''b0slogic:kn''"
    by code_simp
  have used: "addressHasTx (sample_account \<lparr> path_index = 0, path_type = Internal \<rparr> 0)
                 (sample_provider [''b0kn:kt''])
              \<and> address (sample_account \<lparr> path_index = 0, path_type = Internal \<rparr> 0)
                  \<noteq> address (sample_account \<lparr> path_index = 0, path_type = External \<rparr> 0)"
    by (simp add: sample_hasTx sample_defs)
  have notused: "\<not> addressHasTx (sample_account \<lparr> path_index = 0, path_type = Internal \<rparr> 0)
                 (sample_provider [])"
    by (simp add: sample_hasTx)
  from no_usage_discovery[OF records_path_sample u1 sample_payment_address]
    pe pi used
  have r1: "discover sample_core (sample_provider [''b0kn:kt'']) 0 sample_account =
     Some (Inr [sample_account \<lparr> path_index = 0, path_type = External \<rparr> 0,
                sample_account \<lparr> path_index = 0, path_type = Internal \<rparr> 0,
                (sample_account \<lparr> path_index = 0, path_type = External \<rparr> 0)
                  \<lparr> index := 1, address := ''b0slogic:kx'' \<rparr>,
                (sample_account \<lparr> path_index = 0, path_type = Internal \<rparr> 0)
                  \<lparr> index := 2, address := ''b0slogic:kn'' \<rparr>])"
    by auto
  from no_usage_discovery[OF records_path_sample u0 sample_payment_address]
    pe pi notused
  have r0: "discover sample_core (sample_provider []) 0 sample_account =
     Some (Inr [sample_account \<lparr> path_index = 0, path_type = External \<rparr> 0,
                (sample_account \<lparr> path_index = 0, path_type = External \<rparr> 0)
                  \<lparr> index := 1, address := ''b0slogic:kx'' \<rparr>])"
    by auto
  from r1 r0 show ?thesis by blast
qed

end
